theory Spec2Isabelle
  imports Complex_Main "HOL-Library.Option_ord"
begin

text \<open>
  A model of srchive: the nightly ingestion script (\<^verbatim>\<open>ingest_data.py\<close>) with its retention
  controller, candidate discovery and two ingestion modes, and the query engine of the
  search front end (\<^verbatim>\<open>app.py\<close>). The vector index, the metadata store, the embedding
  model and the remote APIs are outside the program: the stores are modelled by their
  contents, the other services by the answers they give.
\<close>

section \<open>Data model\<close>

text \<open>
  A document of the \<^verbatim>\<open>papers\<close> collection. Every field except \<^verbatim>\<open>_id\<close> may be absent
  (\<open>None\<close>), which is what \<^verbatim>\<open>meta.get(key, default)\<close> in \<^verbatim>\<open>app.py\<close> guards against.
  \<open>ingested_at\<close> is a timestamp, counted in clock ticks. An absent \<open>ingested_at\<close> sorts
  before every present one, as a missing field does in an ascending sort of the store;
  this is the order on \<open>nat option\<close>.
\<close>

record document =
  doc_id :: string
  title :: "string option"
  summary :: "string option"
  authors :: "string option"
  pdf_url :: "string option"
  ingested_at :: "nat option"
  doc_type :: "string option"

type_synonym vector = "real list"

text \<open>
  \<^verbatim>\<open>operations.UpdateOne({"_id": doc_id}, {"$set": {...}}, upsert=True)\<close>: both ingestion
  modes set the same six fields.
\<close>

record update_one =
  filter_id :: string
  set_title :: string
  set_summary :: string
  set_authors :: string
  set_pdf_url :: string
  set_ingested_at :: nat
  set_type :: string

text \<open>
  The two external stores, with the sequence of write calls issued to them. The
  collection is kept in its natural order; the index is a list of (id, vector) pairs.
  The stores themselves are taken to be reliable: a call that reaches them takes effect.
\<close>

datatype call =
    Index_upsert "string list"
  | Bulk_write "string list"
  | Index_delete "string list"
  | Delete_many "string list"

record store =
  collection :: "document list"
  index :: "(string \<times> vector) list"
  calls :: "call list"

section \<open>Store operations\<close>

definition set_fields :: "update_one \<Rightarrow> document \<Rightarrow> document" where
  "set_fields u d =
     d\<lparr>title := Some (set_title u), summary := Some (set_summary u),
       authors := Some (set_authors u), pdf_url := Some (set_pdf_url u),
       ingested_at := Some (set_ingested_at u), doc_type := Some (set_type u)\<rparr>"

definition inserted_document :: "update_one \<Rightarrow> document" where
  "inserted_document u =
     set_fields u \<lparr>doc_id = filter_id u, title = None, summary = None, authors = None,
       pdf_url = None, ingested_at = None, doc_type = None\<rparr>"

text \<open>One upserting \<^verbatim>\<open>UpdateOne\<close>: the first document with the id is updated, else one is inserted.\<close>

fun apply_update_one :: "document list \<Rightarrow> update_one \<Rightarrow> document list" where
  "apply_update_one [] u = [inserted_document u]"
| "apply_update_one (d # ds) u =
     (if doc_id d = filter_id u then set_fields u d # ds else d # apply_update_one ds u)"

definition bulk_write :: "store \<Rightarrow> update_one list \<Rightarrow> store" where
  "bulk_write s ops =
     s\<lparr>collection := foldl apply_update_one (collection s) ops,
       calls := calls s @ [Bulk_write (map filter_id ops)]\<rparr>"

fun upsert_vector :: "(string \<times> vector) list \<Rightarrow> string \<times> vector \<Rightarrow> (string \<times> vector) list" where
  "upsert_vector [] kv = [kv]"
| "upsert_vector (e # es) kv =
     (if fst e = fst kv then kv # es else e # upsert_vector es kv)"

definition index_upsert :: "store \<Rightarrow> (string \<times> vector) list \<Rightarrow> store" where
  "index_upsert s vectors =
     s\<lparr>index := foldl upsert_vector (index s) vectors,
       calls := calls s @ [Index_upsert (map fst vectors)]\<rparr>"

definition index_delete :: "store \<Rightarrow> string list \<Rightarrow> store" where
  "index_delete s ids =
     s\<lparr>index := filter (\<lambda>e. fst e \<notin> set ids) (index s),
       calls := calls s @ [Index_delete ids]\<rparr>"

definition delete_many :: "store \<Rightarrow> string list \<Rightarrow> store" where
  "delete_many s ids =
     s\<lparr>collection := filter (\<lambda>d. doc_id d \<notin> set ids) (collection s),
       calls := calls s @ [Delete_many ids]\<rparr>"

section \<open>Retention controller (\<^verbatim>\<open>cleanup_old_items\<close>)\<close>

definition MAX_ITEMS :: int where
  "MAX_ITEMS = 30000"

definition pinecone_batch_size :: nat where
  "pinecone_batch_size = 1000"

text \<open>
  \<^verbatim>\<open>collection.find({"type": {"$ne": "classic"}}).sort("ingested_at", 1).limit(k)\<close>.
  The store leaves the order among equal timestamps open; the model keeps the natural
  order among them (\<open>sort_key\<close> is a stable insertion sort).
\<close>

definition docs_to_delete :: "document list \<Rightarrow> int \<Rightarrow> document list" where
  "docs_to_delete coll max_items =
     take (nat (int (length coll) - max_items))
       (sort_key ingested_at (filter (\<lambda>d. doc_type d \<noteq> Some ''classic'') coll))"

text \<open>The loop \<^verbatim>\<open>for i in range(0, len(delete_ids), pinecone_batch_size)\<close>.\<close>

function delete_batches :: "nat \<Rightarrow> string list \<Rightarrow> store \<Rightarrow> store" where
  "delete_batches i delete_ids s =
     (if i < length delete_ids
      then delete_batches (i + pinecone_batch_size) delete_ids
             (index_delete s (take pinecone_batch_size (drop i delete_ids)))
      else s)"
  by pat_completeness auto
termination
  by (relation "measure (\<lambda>(i, ids, s). length ids - i)")
     (auto simp: pinecone_batch_size_def)

declare delete_batches.simps [simp del]

definition cleanup_old_items :: "store \<Rightarrow> int \<Rightarrow> store" where
  "cleanup_old_items s max_items =
     (let current_count = int (length (collection s)) in
      if current_count > max_items then
        (let delete_ids = map doc_id (docs_to_delete (collection s) max_items) in
         if delete_ids \<noteq> [] then delete_many (delete_batches 0 delete_ids s) delete_ids
         else s)
      else s)"

section \<open>Candidate discovery\<close>

definition RECENT_ITEMS :: nat where
  "RECENT_ITEMS = 27000"

definition CLASSIC_ITEMS :: nat where
  "CLASSIC_ITEMS = 3000"

definition BATCH_SIZE :: nat where
  "BATCH_SIZE = 200"

text \<open>
  A Python \<^verbatim>\<open>set\<close> of ids is a list without duplicates. The order in which \<^verbatim>\<open>list(s)\<close>
  enumerates a set is not fixed by the language: it is the parameter \<open>order\<close> of the
  functions below, applied wherever the source converts a set to a list.
\<close>

definition set_add :: "string list \<Rightarrow> string \<Rightarrow> string list" where
  "set_add s x = (if x \<in> set s then s else s @ [x])"

definition set_update :: "string list \<Rightarrow> string list \<Rightarrow> string list" where
  "set_update s xs = foldl set_add s xs"

definition to_set :: "string list \<Rightarrow> string list" where
  "to_set xs = set_update [] xs"

definition set_union :: "string list \<Rightarrow> string list \<Rightarrow> string list" where
  "set_union s t = set_update s t"

subsection \<open>Text-mining source (\<^verbatim>\<open>fetch_classic_ids_from_github\<close>)\<close>

definition awesome_lists :: "string list" where
  "awesome_lists =
     [''https://raw.githubusercontent.com/terryum/awesome-deep-learning-papers/master/README.md'',
      ''https://raw.githubusercontent.com/ChristosChristofidis/awesome-deep-learning/master/README.md'',
      ''https://raw.githubusercontent.com/ashishpatel26/500-AI-Machine-learning-Deep-learning-Computer-vision-NLP-Projects-with-code/master/README.md'',
      ''https://raw.githubusercontent.com/keon/awesome-nlp/master/README.md'',
      ''https://raw.githubusercontent.com/jtoy/awesome-tensorflow/master/README.md'',
      ''https://raw.githubusercontent.com/kjw0612/awesome-deep-vision/master/README.md'']"

text \<open>
  \<open>get url\<close> stands for the request and the scan of its text:
  \<open>Some found_ids\<close> is the result of \<^verbatim>\<open>arxiv_pattern.findall(response.text)\<close>, and \<open>None\<close>
  a \<^verbatim>\<open>requests.RequestException\<close>, after which the loop goes on with the next list.
\<close>

fun scan_awesome_lists ::
  "(string \<Rightarrow> string list option) \<Rightarrow> string list \<Rightarrow> string list \<Rightarrow> string list" where
  "scan_awesome_lists get classic_ids [] = classic_ids"
| "scan_awesome_lists get classic_ids (url # urls) =
     (case get url of
        None \<Rightarrow> scan_awesome_lists get classic_ids urls
      | Some found_ids \<Rightarrow> scan_awesome_lists get (set_update classic_ids found_ids) urls)"

definition fetch_classic_ids_from_github ::
  "(string list \<Rightarrow> string list) \<Rightarrow> (string \<Rightarrow> string list option) \<Rightarrow> nat \<Rightarrow> string list" where
  "fetch_classic_ids_from_github order get n =
     take n (order (scan_awesome_lists get [] awesome_lists))"

subsection \<open>Ranked-API source (\<^verbatim>\<open>fetch_classic_ids_from_semantic_scholar\<close>)\<close>

text \<open>
  One answer of the search API: status 429, an exception (from the request, from
  \<^verbatim>\<open>raise_for_status\<close> or from the JSON decoding), or a decoded page. A page is the list
  \<^verbatim>\<open>data["data"]\<close>, each item reduced to \<^verbatim>\<open>item.get("externalIds", {}).get("ArXiv")\<close>; the
  empty list stands for every page on which \<^verbatim>\<open>not data or "data" not in data or not data["data"]\<close>
  holds. \<open>api offset k\<close> is the answer to request number \<open>k\<close> for the page at \<open>offset\<close>.
\<close>

datatype response = Rate_limited | Request_error | Json "string option list"

text \<open>What the function does to the outside: requests (by offset) and sleeps (in seconds).\<close>

datatype event = Request nat | Sleep nat

definition max_retries :: nat where
  "max_retries = 3"

definition scholar_limit :: nat where
  "scholar_limit = 100"

text \<open>The loop \<^verbatim>\<open>while retries < max_retries\<close>; \<open>[]\<close> is the initial \<^verbatim>\<open>data = {}\<close>.\<close>

function fetch_page ::
  "(nat \<Rightarrow> nat \<Rightarrow> response) \<Rightarrow> nat \<Rightarrow> nat \<Rightarrow> event list \<Rightarrow> string option list \<times> event list" where
  "fetch_page api offset retries tr =
     (if retries < max_retries then
        (case api offset retries of
           Rate_limited \<Rightarrow> fetch_page api offset (retries + 1) (tr @ [Request offset, Sleep 60])
         | Request_error \<Rightarrow> fetch_page api offset (retries + 1) (tr @ [Request offset, Sleep 5])
         | Json items \<Rightarrow> (items, tr @ [Request offset]))
      else ([], tr))"
  by pat_completeness auto
termination
  by (relation "measure (\<lambda>(api, offset, retries, tr). max_retries - retries)") auto

declare fetch_page.simps [simp del]

text \<open>The loop \<^verbatim>\<open>for item in data["data"]\<close>, with its \<^verbatim>\<open>break\<close>.\<close>

fun add_items :: "nat \<Rightarrow> string list \<Rightarrow> string option list \<Rightarrow> string list" where
  "add_items n classic_ids [] = classic_ids"
| "add_items n classic_ids (None # items) = add_items n classic_ids items"
| "add_items n classic_ids (Some arxiv_id # items) =
     (if arxiv_id \<noteq> [] \<and> arxiv_id \<notin> set classic_ids
      then (if length (classic_ids @ [arxiv_id]) \<ge> n then classic_ids @ [arxiv_id]
            else add_items n (classic_ids @ [arxiv_id]) items)
      else add_items n classic_ids items)"

text \<open>The loop \<^verbatim>\<open>while len(classic_ids) < n\<close>.\<close>

function scholar_loop ::
  "(nat \<Rightarrow> nat \<Rightarrow> response) \<Rightarrow> nat \<Rightarrow> nat \<Rightarrow> string list \<Rightarrow> event list
     \<Rightarrow> string list \<times> event list" where
  "scholar_loop api n offset classic_ids tr =
     (if length classic_ids < n then
        (case fetch_page api offset 0 tr of (items, tr1) \<Rightarrow>
           if items = [] then (classic_ids, tr1)
           else (let classic_ids1 = add_items n classic_ids items in
                 if length classic_ids1 \<ge> n then (classic_ids1, tr1)
                 else if offset + scholar_limit > 9900 then (classic_ids1, tr1)
                 else scholar_loop api n (offset + scholar_limit) classic_ids1 (tr1 @ [Sleep 2])))
      else (classic_ids, tr))"
  by pat_completeness auto
termination
  by (relation "measure (\<lambda>(api, n, offset, ids, tr). 10000 - offset)")
     (auto simp: scholar_limit_def)

declare scholar_loop.simps [simp del]

definition fetch_classic_ids_from_semantic_scholar ::
  "(string list \<Rightarrow> string list) \<Rightarrow> (nat \<Rightarrow> nat \<Rightarrow> response) \<Rightarrow> nat \<Rightarrow> string list \<times> event list" where
  "fetch_classic_ids_from_semantic_scholar order api n =
     (case scholar_loop api n 0 [] [] of (classic_ids, tr) \<Rightarrow> (order classic_ids, tr))"

text \<open>\<^verbatim>\<open>combined_ids = set(github_ids) | set(scholar_ids)\<close> in \<^verbatim>\<open>ingest_classic_papers\<close>.\<close>

definition combined_ids ::
  "(string list \<Rightarrow> string list) \<Rightarrow> (string \<Rightarrow> string list option) \<Rightarrow> (nat \<Rightarrow> nat \<Rightarrow> response)
     \<Rightarrow> nat \<Rightarrow> string list" where
  "combined_ids order get api limit =
     (let github_ids = fetch_classic_ids_from_github order get limit;
          scholar_ids = fst (fetch_classic_ids_from_semantic_scholar order api (limit div 2))
      in set_union (to_set github_ids) (to_set scholar_ids))"

text \<open>
  Notions used to state what the retry loop does: an answer that is not a page is a
  failure, each failure is followed by its sleep, and \<open>failed_attempts api offset i j\<close>
  is the sequence of requests and sleeps of the failed requests \<open>i, \<dots>, j - 1\<close>.
\<close>

definition is_failure :: "response \<Rightarrow> bool" where
  "is_failure r = (case r of Json items \<Rightarrow> False | _ \<Rightarrow> True)"

definition cooldown :: "response \<Rightarrow> nat" where
  "cooldown r = (case r of Rate_limited \<Rightarrow> 60 | Request_error \<Rightarrow> 5 | Json items \<Rightarrow> 0)"

definition failed_attempts :: "(nat \<Rightarrow> nat \<Rightarrow> response) \<Rightarrow> nat \<Rightarrow> nat \<Rightarrow> nat \<Rightarrow> event list" where
  "failed_attempts api offset i j =
     concat (map (\<lambda>k. [Request offset, Sleep (cooldown (api offset k))]) [i..<j])"

section \<open>Ingestion pipeline\<close>

text \<open>What the arXiv client returns for a paper: the fields the pipeline reads.\<close>

record paper =
  entry_id :: string
  paper_title :: string
  paper_summary :: string
  author_names :: "string list"
  paper_pdf_url :: string

text \<open>The dictionary returned by \<^verbatim>\<open>fetch_arxiv_metadata\<close>.\<close>

record meta =
  meta_id :: string
  meta_title :: string
  meta_summary :: string
  meta_authors :: string
  meta_pdf_url :: string

text \<open>
  The outside world of one run of the script:
  \<^item> \<open>list_order\<close>: the order in which \<^verbatim>\<open>list(s)\<close> enumerates a set;
  \<^item> \<open>http_get\<close>, \<open>scholar_api\<close>: the two discovery sources (see above);
  \<^item> \<open>arxiv_lookup\<close>: \<^verbatim>\<open>next(arxiv.Client().results(arxiv.Search(id_list=[arxiv_id])))\<close>, \<open>None\<close> for
    any exception;
  \<^item> \<open>arxiv_search w\<close>: the papers that the search for the week \<open>w\<close> weeks back yields before
    its iteration ends, by exhaustion or by an exception of the client;
  \<^item> \<open>encode\<close>: \<^verbatim>\<open>model.encode(text).tolist()\<close>, \<open>None\<close> for an exception;
  \<^item> \<open>classic_clock k\<close>, \<open>recent_clock k\<close>: the reading of \<^verbatim>\<open>datetime.now(timezone.utc)\<close> taken
    for the item staged when \<open>k\<close> items of the mode have been staged before.
\<close>

record env =
  list_order :: "string list \<Rightarrow> string list"
  http_get :: "string \<Rightarrow> string list option"
  scholar_api :: "nat \<Rightarrow> nat \<Rightarrow> response"
  arxiv_lookup :: "string \<Rightarrow> paper option"
  arxiv_search :: "nat \<Rightarrow> paper list"
  encode :: "string \<Rightarrow> vector option"
  classic_clock :: "nat \<Rightarrow> nat"
  recent_clock :: "nat \<Rightarrow> nat"

text \<open>\<^verbatim>\<open>s.split("/")[-1]\<close>, \<^verbatim>\<open>", ".join(names)\<close> and \<^verbatim>\<open>summary.replace("\n", " ")\<close>.\<close>

definition last_segment :: "string \<Rightarrow> string" where
  "last_segment s = rev (takeWhile (\<lambda>c. c \<noteq> CHR ''/'') (rev s))"

fun join :: "string \<Rightarrow> string list \<Rightarrow> string" where
  "join sep [] = []"
| "join sep [x] = x"
| "join sep (x # y # ys) = x @ sep @ join sep (y # ys)"

definition clean_summary :: "string \<Rightarrow> string" where
  "clean_summary s = map (\<lambda>c. if c = CHR 0x0A then CHR '' '' else c) s"

definition text_to_embed :: "string \<Rightarrow> string \<Rightarrow> string" where
  "text_to_embed ttl cleaned_summary = ''Title: '' @ ttl @ ''. Abstract: '' @ cleaned_summary"

definition fetch_arxiv_metadata :: "env \<Rightarrow> string \<Rightarrow> meta option" where
  "fetch_arxiv_metadata e arxiv_id =
     (case arxiv_lookup e arxiv_id of
        None \<Rightarrow> None
      | Some p \<Rightarrow>
          Some \<lparr>meta_id = last_segment (entry_id p),
                meta_title = paper_title p,
                meta_summary = paper_summary p,
                meta_authors = join '', '' (author_names p),
                meta_pdf_url = paper_pdf_url p\<rparr>)"

text \<open>
  The variables of an ingestion loop: the two stores, \<^verbatim>\<open>processed_ids\<close>, the two staging
  buffers, and the counter of the mode (\<^verbatim>\<open>classic_ingested\<close>, \<^verbatim>\<open>papers_ingested_count\<close>).
\<close>

record ingest_state =
  stores :: store
  processed_ids :: "string set"
  vectors_batch :: "(string \<times> vector) list"
  mongo_batch :: "update_one list"
  ingested :: nat

text \<open>\<^verbatim>\<open>index.upsert(vectors=vectors_batch); collection.bulk_write(mongo_batch)\<close>.\<close>

definition flush_batches :: "ingest_state \<Rightarrow> ingest_state" where
  "flush_batches s =
     s\<lparr>stores := bulk_write (index_upsert (stores s) (vectors_batch s)) (mongo_batch s)\<rparr>"

text \<open>The flush inside the loops: \<^verbatim>\<open>if len(vectors_batch) >= BATCH_SIZE: ...\<close>.\<close>

definition threshold_flush :: "ingest_state \<Rightarrow> ingest_state" where
  "threshold_flush s =
     (if length (vectors_batch s) \<ge> BATCH_SIZE
      then (flush_batches s)\<lparr>vectors_batch := [], mongo_batch := []\<rparr>
      else s)"

text \<open>The flush after the loops: \<^verbatim>\<open>if vectors_batch: ...\<close>; the buffers are left as they are.\<close>

definition final_flush :: "ingest_state \<Rightarrow> ingest_state" where
  "final_flush s = (if vectors_batch s \<noteq> [] then flush_batches s else s)"

text \<open>The four statements that stage one item in either loop.\<close>

definition stage :: "ingest_state \<Rightarrow> string \<times> vector \<Rightarrow> update_one \<Rightarrow> ingest_state" where
  "stage s v mongo_op =
     s\<lparr>vectors_batch := vectors_batch s @ [v],
       mongo_batch := mongo_batch s @ [mongo_op],
       ingested := ingested s + 1,
       processed_ids := insert (fst v) (processed_ids s)\<rparr>"

subsection \<open>Classic mode (\<^verbatim>\<open>ingest_classic_papers\<close>)\<close>

definition classic_mongo_op :: "meta \<Rightarrow> string \<Rightarrow> nat \<Rightarrow> update_one" where
  "classic_mongo_op m cleaned_summary t =
     \<lparr>filter_id = meta_id m,
      set_title = meta_title m,
      set_summary = cleaned_summary,
      set_authors = meta_authors m,
      set_pdf_url = meta_pdf_url m,
      set_ingested_at = t,
      set_type = ''classic''\<rparr>"

text \<open>The body of \<^verbatim>\<open>for arxiv_id in new_classic_ids\<close>.\<close>

definition ingest_classic_item :: "env \<Rightarrow> ingest_state \<Rightarrow> string \<Rightarrow> ingest_state" where
  "ingest_classic_item e s arxiv_id =
     (case fetch_arxiv_metadata e arxiv_id of
        None \<Rightarrow> s
      | Some m \<Rightarrow>
          (let cleaned_summary = clean_summary (meta_summary m) in
           case encode e (text_to_embed (meta_title m) cleaned_summary) of
             None \<Rightarrow> s
           | Some embedding \<Rightarrow>
               threshold_flush
                 (stage s (meta_id m, embedding)
                    (classic_mongo_op m cleaned_summary (classic_clock e (ingested s))))))"

definition ingest_classic_papers ::
  "env \<Rightarrow> store \<Rightarrow> string set \<Rightarrow> nat \<Rightarrow> store \<times> string set" where
  "ingest_classic_papers e st processed limit =
     (let classic_ids_to_fetch =
            list_order e (combined_ids (list_order e) (http_get e) (scholar_api e) limit);
          new_classic_ids = filter (\<lambda>cid. cid \<notin> processed) classic_ids_to_fetch
      in if new_classic_ids = [] then (st, processed)
         else (let s = final_flush
                         (foldl (ingest_classic_item e)
                            \<lparr>stores = st, processed_ids = processed, vectors_batch = [],
                             mongo_batch = [], ingested = 0\<rparr>
                            new_classic_ids)
               in (stores s, processed_ids s)))"

subsection \<open>Recent mode (the loop of the script)\<close>

definition recent_mongo_op :: "paper \<Rightarrow> string \<Rightarrow> string \<Rightarrow> nat \<Rightarrow> update_one" where
  "recent_mongo_op p doc cleaned_summary t =
     \<lparr>filter_id = doc,
      set_title = paper_title p,
      set_summary = cleaned_summary,
      set_authors = join '', '' (author_names p),
      set_pdf_url = paper_pdf_url p,
      set_ingested_at = t,
      set_type = ''recent''\<rparr>"

text \<open>
  The loop \<^verbatim>\<open>for paper in results\<close> of one week. An exception of \<^verbatim>\<open>model.encode\<close> leaves
  the loop through the \<^verbatim>\<open>except\<close> clause of the week, with the state as it is.
\<close>

fun ingest_recent_week :: "env \<Rightarrow> ingest_state \<Rightarrow> paper list \<Rightarrow> ingest_state" where
  "ingest_recent_week e s [] = s"
| "ingest_recent_week e s (p # ps) =
     (if last_segment (entry_id p) \<in> processed_ids s then ingest_recent_week e s ps
      else
        (case encode e (text_to_embed (paper_title p) (clean_summary (paper_summary p))) of
           None \<Rightarrow> s
         | Some embedding \<Rightarrow>
             (let s1 = threshold_flush
                         (stage s (last_segment (entry_id p), embedding)
                            (recent_mongo_op p (last_segment (entry_id p))
                               (clean_summary (paper_summary p))
                               (recent_clock e (ingested s))))
              in if ingested s1 \<ge> RECENT_ITEMS then s1 else ingest_recent_week e s1 ps)))"

text \<open>The loop \<^verbatim>\<open>while papers_ingested_count < RECENT_ITEMS\<close>, over \<^verbatim>\<open>weeks_to_go_back\<close>.\<close>

function recent_loop :: "env \<Rightarrow> nat \<Rightarrow> ingest_state \<Rightarrow> ingest_state" where
  "recent_loop e weeks_to_go_back s =
     (if ingested s < RECENT_ITEMS then
        (let s1 = ingest_recent_week e s (arxiv_search e weeks_to_go_back) in
         if weeks_to_go_back + 1 > 156 then s1
         else recent_loop e (weeks_to_go_back + 1) s1)
      else s)"
  by pat_completeness auto
termination
  by (relation "measure (\<lambda>(e, w, s). 157 - w)") auto

declare recent_loop.simps [simp del]

definition ingest_recent_papers :: "env \<Rightarrow> store \<Rightarrow> string set \<Rightarrow> store \<times> string set" where
  "ingest_recent_papers e st processed =
     (let s = final_flush
                (recent_loop e 0
                   \<lparr>stores = st, processed_ids = processed, vectors_batch = [],
                    mongo_batch = [], ingested = 0\<rparr>)
      in (stores s, processed_ids s))"

subsection \<open>The script\<close>

definition run_ingestion :: "env \<Rightarrow> store \<Rightarrow> store" where
  "run_ingestion e st0 =
     (let st1 = cleanup_old_items st0 MAX_ITEMS;
          processed = set (map doc_id (collection st1));
          (st2, processed2) = ingest_classic_papers e st1 processed CLASSIC_ITEMS;
          (st3, processed3) = ingest_recent_papers e st2 processed2
      in cleanup_old_items st3 MAX_ITEMS)"

section \<open>Notions used to state the properties of the ingestion loops\<close>

text \<open>
  The two staging buffers are aligned when they hold the same ids in the same order.
  The pending collection and the pending index are the contents that the stores have
  once the staged items are written. A sequence of calls consists of flush pairs when
  it is made of index upserts, each followed by a bulk write of the same ids.
\<close>

definition aligned :: "ingest_state \<Rightarrow> bool" where
  "aligned s = (map fst (vectors_batch s) = map filter_id (mongo_batch s))"

definition pending_collection :: "ingest_state \<Rightarrow> document list" where
  "pending_collection s = foldl apply_update_one (collection (stores s)) (mongo_batch s)"

definition pending_index :: "ingest_state \<Rightarrow> (string \<times> vector) list" where
  "pending_index s = foldl upsert_vector (index (stores s)) (vectors_batch s)"

fun flush_pairs :: "call list \<Rightarrow> bool" where
  "flush_pairs [] = True"
| "flush_pairs (Index_upsert a # Bulk_write b # cs) = (a = b \<and> flush_pairs cs)"
| "flush_pairs cs = False"

text \<open>Invariant of the loops, relative to the store and the processed ids at their start.\<close>

definition run_inv :: "store \<Rightarrow> string set \<Rightarrow> ingest_state \<Rightarrow> bool" where
  "run_inv st0 P0 s =
     (aligned s
      \<and> processed_ids s \<subseteq> P0 \<union> (doc_id ` set (pending_collection s) \<inter> fst ` set (pending_index s))
      \<and> take (length (calls st0)) (calls (stores s)) = calls st0
      \<and> flush_pairs (drop (length (calls st0)) (calls (stores s))))"

text \<open>
  The state in which either loop starts, and the list \<^verbatim>\<open>new_classic_ids\<close> of
  \<^verbatim>\<open>ingest_classic_papers\<close>.
\<close>

definition initial_state :: "store \<Rightarrow> string set \<Rightarrow> ingest_state" where
  "initial_state st processed =
     \<lparr>stores = st, processed_ids = processed, vectors_batch = [], mongo_batch = [], ingested = 0\<rparr>"

definition new_classic_ids :: "env \<Rightarrow> string set \<Rightarrow> nat \<Rightarrow> string list" where
  "new_classic_ids e processed limit =
     filter (\<lambda>cid. cid \<notin> processed)
       (list_order e (combined_ids (list_order e) (http_get e) (scholar_api e) limit))"

text \<open>
  An id is written with a type when the collection holds exactly one document for it,
  of that type and with a reading of the given clock as its timestamp, and the index
  holds a vector for it. The pending stores are the stores once the staged items are
  written.
\<close>

definition written_as ::
  "string \<Rightarrow> (nat \<Rightarrow> nat) \<Rightarrow> string \<Rightarrow> store \<Rightarrow> bool" where
  "written_as ty clock X st =
     ((\<exists>d k. filter (\<lambda>d. doc_id d = X) (collection st) = [d]
          \<and> doc_type d = Some ty \<and> ingested_at d = Some (clock k))
      \<and> X \<in> fst ` set (index st))"

definition pending_stores :: "ingest_state \<Rightarrow> store" where
  "pending_stores s = (stores s)\<lparr>collection := pending_collection s, index := pending_index s\<rparr>"

text \<open>The id and the text of a paper in the recent loop, and the state after its staging.\<close>

definition recent_id :: "paper \<Rightarrow> string" where
  "recent_id p = last_segment (entry_id p)"

definition recent_text :: "paper \<Rightarrow> string" where
  "recent_text p = text_to_embed (paper_title p) (clean_summary (paper_summary p))"

definition staged_recent :: "env \<Rightarrow> ingest_state \<Rightarrow> paper \<Rightarrow> vector \<Rightarrow> ingest_state" where
  "staged_recent e s p emb =
     threshold_flush
       (stage s (recent_id p, emb)
          (recent_mongo_op p (recent_id p) (clean_summary (paper_summary p))
             (recent_clock e (ingested s))))"

section \<open>Query engine (\<^verbatim>\<open>perform_search\<close>)\<close>

text \<open>One entry of \<^verbatim>\<open>all_results\<close>; the keys \<^verbatim>\<open>id\<close>, \<^verbatim>\<open>title\<close>, ... carry the prefix \<open>res_\<close>.\<close>

record result =
  res_id :: string
  score :: real
  res_title :: string
  res_summary :: string
  res_authors :: string
  res_pdf_url :: string
  res_type :: string

text \<open>
  What \<^verbatim>\<open>model.encode\<close> followed by \<^verbatim>\<open>index.query(top_k=15)\<close> gives for a query text:
  the list of matches (id, score), or an exception, which the \<^verbatim>\<open>except\<close> clause of the
  loop body catches. Scores are compared only, and are taken as real numbers.
\<close>

datatype query_outcome = Query_failed | Matches "(string \<times> real) list"

text \<open>
  \<^verbatim>\<open>str.strip()\<close>. Strings are byte strings in UTF-8; the characters removed at both
  ends are the 29 characters for which \<^verbatim>\<open>str.isspace\<close> holds (U+0009 to U+000D, U+001C
  to U+0020, U+0085, U+00A0, U+1680, U+2000 to U+200A, U+2028, U+2029, U+202F, U+205F,
  U+3000), each given by its encoding.
\<close>

definition whitespace :: "string list" where
  "whitespace =
     [[CHR 0x09], [CHR 0x0A], [CHR 0x0B], [CHR 0x0C], [CHR 0x0D],
      [CHR 0x1C], [CHR 0x1D], [CHR 0x1E], [CHR 0x1F], [CHR 0x20],
      [CHR 0xC2, CHR 0x85], [CHR 0xC2, CHR 0xA0],
      [CHR 0xE1, CHR 0x9A, CHR 0x80],
      [CHR 0xE2, CHR 0x80, CHR 0x80], [CHR 0xE2, CHR 0x80, CHR 0x81],
      [CHR 0xE2, CHR 0x80, CHR 0x82], [CHR 0xE2, CHR 0x80, CHR 0x83],
      [CHR 0xE2, CHR 0x80, CHR 0x84], [CHR 0xE2, CHR 0x80, CHR 0x85],
      [CHR 0xE2, CHR 0x80, CHR 0x86], [CHR 0xE2, CHR 0x80, CHR 0x87],
      [CHR 0xE2, CHR 0x80, CHR 0x88], [CHR 0xE2, CHR 0x80, CHR 0x89],
      [CHR 0xE2, CHR 0x80, CHR 0x8A],
      [CHR 0xE2, CHR 0x80, CHR 0xA8], [CHR 0xE2, CHR 0x80, CHR 0xA9],
      [CHR 0xE2, CHR 0x80, CHR 0xAF], [CHR 0xE2, CHR 0x81, CHR 0x9F],
      [CHR 0xE3, CHR 0x80, CHR 0x80]]"

text \<open>Removes, as long as there is one, a leading occurrence of one of the sequences \<open>ws\<close>.\<close>

function strip_left :: "string list \<Rightarrow> string \<Rightarrow> string" where
  "strip_left ws s =
     (case find (\<lambda>w. w \<noteq> [] \<and> take (length w) s = w) ws of
        None \<Rightarrow> s
      | Some w \<Rightarrow> strip_left ws (drop (length w) s))"
  by pat_completeness auto
termination
proof (relation "measure (\<lambda>(ws, s). length s)")
  show "wf (measure (\<lambda>(ws, s). length s))" by simp
next
  fix ws :: "string list" and s w :: string
  assume "find (\<lambda>w. w \<noteq> [] \<and> take (length w) s = w) ws = Some w"
  then have w: "w \<noteq> []" "take (length w) s = w" by (auto simp: find_Some_iff)
  from w(2) have "length w \<le> length s" by (metis length_take min.cobounded1)
  with w(1) show "((ws, drop (length w) s), (ws, s)) \<in> measure (\<lambda>(ws, s). length s)"
    by (cases w) auto
qed

declare strip_left.simps [simp del]

definition strip :: "string \<Rightarrow> string" where
  "strip s = rev (strip_left (map rev whitespace) (rev (strip_left whitespace s)))"

text \<open>The dict comprehension \<^verbatim>\<open>{res["id"]: res["score"] for res in matches}\<close>: a later match wins.\<close>

definition id_to_score :: "(string \<times> real) list \<Rightarrow> string \<Rightarrow> real option" where
  "id_to_score matches = map_of (rev matches)"

text \<open>\<^verbatim>\<open>collection.find({"_id": {"$in": result_ids}})\<close>, in the natural order of the collection.\<close>

definition find_by_ids :: "document list \<Rightarrow> string list \<Rightarrow> document list" where
  "find_by_ids coll result_ids = filter (\<lambda>d. doc_id d \<in> set result_ids) coll"

definition result_entry :: "document \<Rightarrow> real \<Rightarrow> result" where
  "result_entry meta sc =
     \<lparr>res_id = doc_id meta,
      score = sc,
      res_title = (case title meta of None \<Rightarrow> ''No Title'' | Some t \<Rightarrow> t),
      res_summary = (case summary meta of None \<Rightarrow> ''No summary available.'' | Some t \<Rightarrow> t),
      res_authors = (case authors meta of None \<Rightarrow> ''No authors listed'' | Some t \<Rightarrow> t),
      res_pdf_url = (case pdf_url meta of None \<Rightarrow> ''#'' | Some t \<Rightarrow> t),
      res_type = (case doc_type meta of None \<Rightarrow> ''recent'' | Some t \<Rightarrow> t)\<rparr>"

text \<open>The loop \<^verbatim>\<open>for meta in papers_metadata\<close> over the pair (\<^verbatim>\<open>all_results\<close>, \<^verbatim>\<open>seen_ids\<close>).\<close>

fun merge_metadata ::
  "(string \<Rightarrow> real option) \<Rightarrow> result list \<times> string set \<Rightarrow> document list
     \<Rightarrow> result list \<times> string set" where
  "merge_metadata sc acc [] = acc"
| "merge_metadata sc (all_results, seen_ids) (meta # rest) =
     (let paper_id = doc_id meta in
      if paper_id \<notin> seen_ids
      then merge_metadata sc
             (all_results @ [result_entry meta (case sc paper_id of None \<Rightarrow> 0 | Some v \<Rightarrow> v)],
              insert paper_id seen_ids) rest
      else merge_metadata sc (all_results, seen_ids) rest)"

text \<open>The body of \<^verbatim>\<open>for query in queries\<close>, with its \<^verbatim>\<open>try\<close>/\<^verbatim>\<open>except\<close>.\<close>

definition process_query ::
  "document list \<Rightarrow> (string \<Rightarrow> query_outcome) \<Rightarrow> result list \<times> string set \<Rightarrow> string
     \<Rightarrow> result list \<times> string set" where
  "process_query coll respond acc query =
     (case respond (strip query) of
        Query_failed \<Rightarrow> acc
      | Matches matches \<Rightarrow>
          (let result_ids = map fst matches in
           if result_ids = [] then acc
           else merge_metadata (id_to_score matches) acc (find_by_ids coll result_ids)))"

definition merged_results ::
  "document list \<Rightarrow> (string \<Rightarrow> query_outcome) \<Rightarrow> string list \<Rightarrow> result list \<times> string set" where
  "merged_results coll respond queries = foldl (process_query coll respond) ([], {}) queries"

text \<open>
  \<^verbatim>\<open>all_results.sort(key=lambda x: x["score"], reverse=True)\<close> is a stable sort in
  descending order of the score, as is the insertion sort on the negated score.
\<close>

definition perform_search ::
  "document list \<Rightarrow> (string \<Rightarrow> query_outcome) \<Rightarrow> string list \<Rightarrow> result list" where
  "perform_search coll respond queries =
     take 25 (sort_key (\<lambda>x. - score x) (fst (merged_results coll respond queries)))"

section \<open>Concrete stores and inputs\<close>

text \<open>A store of three documents in which the oldest is classic, and a store of classic documents only.\<close>

definition mk_doc :: "string \<Rightarrow> nat \<Rightarrow> string \<Rightarrow> document" where
  "mk_doc i t ty = \<lparr>doc_id = i, title = Some ''t'', summary = Some ''s'', authors = Some ''a'',
     pdf_url = Some ''u'', ingested_at = Some t, doc_type = Some ty\<rparr>"

definition small_store :: store where
  "small_store = \<lparr>collection = [mk_doc ''a'' 1 ''classic'', mk_doc ''b'' 5 ''recent'', mk_doc ''c'' 3 ''recent''],
     index = [(''a'', [1]), (''b'', [2]), (''c'', [3])], calls = []\<rparr>"

definition classic_only_store :: store where
  "classic_only_store = \<lparr>collection = [mk_doc ''a'' 1 ''classic'', mk_doc ''b'' 2 ''classic''],
     index = [(''a'', [1]), (''b'', [2])], calls = []\<rparr>"

text \<open>The corpus of the retention scenario: 30,050 documents, the first 3,000 of them classic.\<close>

definition corpus_doc :: "nat \<Rightarrow> document" where
  "corpus_doc i = \<lparr>doc_id = replicate i (CHR ''a''), title = Some ''t'', summary = Some ''s'',
     authors = Some ''a'', pdf_url = Some ''u'', ingested_at = Some i,
     doc_type = Some (if i < 3000 then ''classic'' else ''recent'')\<rparr>"

definition corpus_store :: store where
  "corpus_store = \<lparr>collection = map corpus_doc [0..<30050],
     index = map (\<lambda>i. (replicate i (CHR ''a''), [])) [0..<30050], calls = []\<rparr>"

text \<open>Two queries that match the same id with different scores; any other query fails.\<close>

definition two_query_respond :: "string \<Rightarrow> query_outcome" where
  "two_query_respond q =
     (if q = ''q1'' then Matches [(''b'', 0.5), (''zz'', 0.4)]
      else if q = ''q2'' then Matches [(''b'', 0.9), (''c'', 0.7)]
      else Query_failed)"

text \<open>Discovery sources: a text-mining source with three ids, a ranked API with one page.\<close>

definition overlap_get :: "string \<Rightarrow> string list option" where
  "overlap_get url = (if url = hd awesome_lists
     then Some [''1706.03762'', ''1810.04805'', ''1409.0473''] else None)"

definition overlap_api :: "nat \<Rightarrow> nat \<Rightarrow> response" where
  "overlap_api offset k = (if offset = 0 then Json [Some ''2005.14165'', Some ''1512.03385''] else Json [])"

text \<open>A ranked API whose second page fails at every request, and one whose request succeeds at the third attempt.\<close>

definition stalled_api :: "nat \<Rightarrow> nat \<Rightarrow> response" where
  "stalled_api offset k =
     (if offset = 0 then Json [Some ''1706.03762'']
      else if offset = 100 then (if k = 1 then Request_error else Rate_limited)
      else Json [Some ''1810.04805''])"

definition flaky_api :: "nat \<Rightarrow> nat \<Rightarrow> response" where
  "flaky_api offset k =
     (if k = 0 then Rate_limited else if k = 1 then Request_error
      else Json [Some ''1706.03762''])"

text \<open>A paper that the ranked API lists under its id without version, and that the weekly search of the recent mode yields as well; \<open>quiet_env\<close> is the same world without classic candidates.\<close>

definition sample_paper :: paper where
  "sample_paper = \<lparr>entry_id = ''http://arxiv.org/abs/2401.00001v1'', paper_title = ''T'',
     paper_summary = ''S'', author_names = [''A'', ''B''], paper_pdf_url = ''U''\<rparr>"

definition sample_env :: env where
  "sample_env = \<lparr>list_order = id,
     http_get = (\<lambda>url. None),
     scholar_api = (\<lambda>offset k. if offset = 0 then Json [Some ''2401.00001''] else Json []),
     arxiv_lookup = (\<lambda>i. if i = ''2401.00001'' then Some sample_paper else None),
     arxiv_search = (\<lambda>w. if w = 0 then [sample_paper] else []),
     encode = (\<lambda>t. Some [1]),
     classic_clock = (\<lambda>k. 1000 + k),
     recent_clock = (\<lambda>k. 2000 + k)\<rparr>"

definition sample_meta :: meta where
  "sample_meta = \<lparr>meta_id = ''2401.00001v1'', meta_title = ''T'', meta_summary = ''S'',
     meta_authors = ''A, B'', meta_pdf_url = ''U''\<rparr>"

definition quiet_env :: env where
  "quiet_env = sample_env\<lparr>scholar_api := (\<lambda>offset k. Json []),
     classic_clock := (\<lambda>k. 100 + k), recent_clock := (\<lambda>k. 200 + k)\<rparr>"

text \<open>An ingestion state one item below the batch size.\<close>

definition sample_op :: update_one where
  "sample_op = \<lparr>filter_id = ''x'', set_title = ''T'', set_summary = ''S'', set_authors = ''A'',
     set_pdf_url = ''U'', set_ingested_at = 1, set_type = ''recent''\<rparr>"

definition nearly_full :: ingest_state where
  "nearly_full = \<lparr>stores = \<lparr>collection = [], index = [], calls = []\<rparr>, processed_ids = {},
     vectors_batch = replicate 199 (''x'', [1]), mongo_batch = replicate 199 sample_op,
     ingested = 199\<rparr>"

text \<open>The same state, one item below the target count of the recent mode.\<close>

definition nearly_done :: ingest_state where
  "nearly_done = nearly_full\<lparr>ingested := 26999\<rparr>"

text \<open>Two consecutive nightly runs of the script, starting from empty stores, and the document of the sample paper after each.\<close>

definition empty_store :: store where
  "empty_store = \<lparr>collection = [], index = [], calls = []\<rparr>"

definition first_night :: store where
  "first_night = run_ingestion quiet_env empty_store"


definition recent_doc :: document where
  "recent_doc = \<lparr>doc_id = ''2401.00001v1'', title = Some ''T'', summary = Some ''S'',
     authors = Some ''A, B'', pdf_url = Some ''U'', ingested_at = Some 200,
     doc_type = Some ''recent''\<rparr>"

definition classic_doc :: document where
  "classic_doc = \<lparr>doc_id = ''2401.00001v1'', title = Some ''T'', summary = Some ''S'',
     authors = Some ''A, B'', pdf_url = Some ''U'', ingested_at = Some 1000,
     doc_type = Some ''classic''\<rparr>"

section \<open>Retention controller: lemmas and theorems\<close>

lemma delete_batches_collection:
  "collection (delete_batches i ids s) = collection s"
proof (induction i ids s rule: delete_batches.induct)
  case (1 i ids s)
  show ?case
    using 1 by (subst delete_batches.simps) (simp add: index_delete_def)
qed

lemma delete_batches_index:
  "index (delete_batches i ids s) = filter (\<lambda>e. fst e \<notin> set (drop i ids)) (index s)"
proof (induction i ids s rule: delete_batches.induct)
  case (1 i ids s)
  show ?case
  proof (cases "i < length ids")
    case True
    have split: "set (drop i ids) =
        set (take pinecone_batch_size (drop i ids)) \<union> set (drop (i + pinecone_batch_size) ids)"
      by (metis add.commute append_take_drop_id drop_drop set_append)
    have "index (delete_batches i ids s) =
        filter (\<lambda>e. fst e \<notin> set (drop (i + pinecone_batch_size) ids))
          (filter (\<lambda>e. fst e \<notin> set (take pinecone_batch_size (drop i ids))) (index s))"
      using True 1 by (subst delete_batches.simps) (simp add: index_delete_def)
    also have "\<dots> = filter (\<lambda>e. fst e \<notin> set (drop i ids)) (index s)"
      unfolding split by (auto intro: filter_cong)
    finally show ?thesis .
  next
    case False
    then show ?thesis by (subst delete_batches.simps) simp
  qed
qed

lemma docs_to_delete_subset:
  "set (docs_to_delete coll m) \<subseteq> {d \<in> set coll. doc_type d \<noteq> Some ''classic''}"
proof
  fix d assume "d \<in> set (docs_to_delete coll m)"
  then have "d \<in> set (sort_key ingested_at (filter (\<lambda>d. doc_type d \<noteq> Some ''classic'') coll))"
    unfolding docs_to_delete_def by (rule in_set_takeD)
  then show "d \<in> {d \<in> set coll. doc_type d \<noteq> Some ''classic''}" by simp
qed

lemma cleanup_collection:
  "collection (cleanup_old_items s m) =
     (if int (length (collection s)) > m
      then filter (\<lambda>d. doc_id d \<notin> doc_id ` set (docs_to_delete (collection s) m)) (collection s)
      else collection s)"
  by (simp add: cleanup_old_items_def Let_def delete_many_def delete_batches_collection)

lemma cleanup_index:
  "index (cleanup_old_items s m) =
     (if int (length (collection s)) > m
      then filter (\<lambda>e. fst e \<notin> doc_id ` set (docs_to_delete (collection s) m)) (index s)
      else index s)"
  by (simp add: cleanup_old_items_def Let_def delete_many_def delete_batches_index)

lemma distinct_ids_same:
  "distinct (map doc_id coll) \<Longrightarrow> d \<in> set coll \<Longrightarrow> d' \<in> set coll \<Longrightarrow> doc_id d = doc_id d'
     \<Longrightarrow> d = d'"
  by (meson distinct_map inj_onD)

lemma length_filter_not_in:
  assumes "distinct xs" "A \<subseteq> set xs"
  shows "length (filter (\<lambda>x. x \<notin> A) xs) = length xs - card A"
proof -
  have fin: "finite A" using assms(2) finite_subset by blast
  have "length (filter (\<lambda>x. x \<notin> A) xs) = card (set (filter (\<lambda>x. x \<notin> A) xs))"
    using assms(1) distinct_card[of "filter (\<lambda>x. x \<notin> A) xs"] by simp
  also have "set (filter (\<lambda>x. x \<notin> A) xs) = set xs - A" by auto
  also have "card (set xs - A) = card (set xs) - card A"
    using assms(2) fin by (simp add: card_Diff_subset)
  also have "card (set xs) = length xs" using assms(1) by (simp add: distinct_card)
  finally show ?thesis .
qed

lemma sorted_take_le_drop:
  assumes "sorted (map f xs)" "x \<in> set (take n xs)" "y \<in> set (drop n xs)"
  shows "f x \<le> f y"
proof -
  have "sorted (map f (take n xs) @ map f (drop n xs))"
    using assms(1) by (metis append_take_drop_id map_append)
  then show ?thesis using assms(2,3) by (auto simp: sorted_append)
qed

lemma filter_by_id_eq:
  assumes "distinct (map doc_id coll)" "set D \<subseteq> set coll"
  shows "filter (\<lambda>d. doc_id d \<notin> doc_id ` set D) coll = filter (\<lambda>d. d \<notin> set D) coll"
proof (rule filter_cong[OF refl])
  fix d assume d: "d \<in> set coll"
  show "(doc_id d \<notin> doc_id ` set D) = (d \<notin> set D)"
    using distinct_ids_same[OF assms(1) d] assms(2) by blast
qed

lemma distinct_docs_to_delete:
  "distinct coll \<Longrightarrow> distinct (docs_to_delete coll m)"
  by (simp add: docs_to_delete_def)

lemma cleanup_selected_all:
  assumes "distinct (map doc_id coll)"
    and "length (filter (\<lambda>d. doc_type d \<noteq> Some ''classic'') coll) \<le> nat (int (length coll) - m)"
  shows "\<forall>d \<in> set (filter (\<lambda>d. doc_id d \<notin> doc_id ` set (docs_to_delete coll m)) coll).
           doc_type d = Some ''classic''"
proof -
  have "docs_to_delete coll m = sort_key ingested_at (filter (\<lambda>d. doc_type d \<noteq> Some ''classic'') coll)"
    using assms(2) by (simp add: docs_to_delete_def)
  then have "set (docs_to_delete coll m) = {d \<in> set coll. doc_type d \<noteq> Some ''classic''}"
    by simp
  then show ?thesis by auto
qed

lemma cleanup_selected_exact:
  assumes dist: "distinct (map doc_id coll)"
    and over: "int (length coll) > m"
    and enough: "nat (int (length coll) - m) \<le> length (filter (\<lambda>d. doc_type d \<noteq> Some ''classic'') coll)"
  shows "length (docs_to_delete coll m) = nat (int (length coll) - m)"
    and "filter (\<lambda>d. doc_id d \<notin> doc_id ` set (docs_to_delete coll m)) coll
           = filter (\<lambda>d. d \<notin> set (docs_to_delete coll m)) coll"
    and "int (length (filter (\<lambda>d. doc_id d \<notin> doc_id ` set (docs_to_delete coll m)) coll)) = m"
    and "\<forall>d \<in> set (docs_to_delete coll m).
           \<forall>d' \<in> set (filter (\<lambda>d. doc_id d \<notin> doc_id ` set (docs_to_delete coll m)) coll).
             doc_type d' \<noteq> Some ''classic'' \<longrightarrow> ingested_at d \<le> ingested_at d'"
proof -
  let ?N = "filter (\<lambda>d. doc_type d \<noteq> Some ''classic'') coll"
  let ?S = "sort_key ingested_at ?N"
  let ?e = "nat (int (length coll) - m)"
  let ?D = "docs_to_delete coll m"
  have D: "?D = take ?e ?S" by (simp add: docs_to_delete_def)
  show len: "length ?D = ?e" using enough by (simp add: D)
  have sub: "set ?D \<subseteq> set coll" using docs_to_delete_subset by blast
  have dc: "distinct coll" using dist by (simp add: distinct_map)
  show eq: "filter (\<lambda>d. doc_id d \<notin> doc_id ` set ?D) coll = filter (\<lambda>d. d \<notin> set ?D) coll"
    by (rule filter_by_id_eq[OF dist sub])
  have "card (set ?D) = ?e"
    using distinct_docs_to_delete[OF dc, of m] len by (simp add: distinct_card)
  then have "length (filter (\<lambda>d. d \<notin> set ?D) coll) = length coll - ?e"
    using length_filter_not_in[OF dc sub] by simp
  moreover have "?e \<le> length coll"
    using enough length_filter_le[of "\<lambda>d. doc_type d \<noteq> Some ''classic''" coll] by linarith
  ultimately show "int (length (filter (\<lambda>d. doc_id d \<notin> doc_id ` set ?D) coll)) = m"
    using over eq by simp
  show "\<forall>d \<in> set ?D. \<forall>d' \<in> set (filter (\<lambda>d. doc_id d \<notin> doc_id ` set ?D) coll).
          doc_type d' \<noteq> Some ''classic'' \<longrightarrow> ingested_at d \<le> ingested_at d'"
  proof (intro ballI impI)
    fix d d' assume d: "d \<in> set ?D"
      and d': "d' \<in> set (filter (\<lambda>d. doc_id d \<notin> doc_id ` set ?D) coll)"
      and nc: "doc_type d' \<noteq> Some ''classic''"
    from d' have "d' \<in> set coll" "d' \<notin> set ?D" unfolding eq by auto
    with nc have "d' \<in> set ?S" by simp
    then have "d' \<in> set (take ?e ?S) \<union> set (drop ?e ?S)"
      by (metis append_take_drop_id set_append)
    with \<open>d' \<notin> set ?D\<close> have b: "d' \<in> set (drop ?e ?S)" by (simp add: D)
    have a: "d \<in> set (take ?e ?S)" using d by (simp add: D)
    have srt: "sorted (map ingested_at ?S)" by simp
    show "ingested_at d \<le> ingested_at d'"
      by (rule sorted_take_le_drop[OF srt a b])
  qed
qed

text \<open>
  Claim C1. The documents selected for deletion by the retention controller are never
  of type classic, whatever their age and whatever the cap. With unique document ids,
  every classic document and its vector are still in the stores after the run. When the
  selection is empty, the run returns the stores as they were, with no call issued.
\<close>

theorem cleanup_never_selects_classic:
  "(\<forall>d \<in> set (docs_to_delete (collection s) max_items). doc_type d \<noteq> Some ''classic'')
   \<and> (distinct (map doc_id (collection s)) \<longrightarrow>
        (\<forall>d \<in> set (collection s). doc_type d = Some ''classic'' \<longrightarrow>
           d \<in> set (collection (cleanup_old_items s max_items))
           \<and> (\<forall>e \<in> set (index s). fst e = doc_id d \<longrightarrow>
                 e \<in> set (index (cleanup_old_items s max_items)))))
   \<and> (docs_to_delete (collection s) max_items = [] \<longrightarrow> cleanup_old_items s max_items = s)"
proof (intro conjI impI ballI)
  fix d assume "d \<in> set (docs_to_delete (collection s) max_items)"
  then show "doc_type d \<noteq> Some ''classic''" using docs_to_delete_subset by blast
next
  fix d assume dist: "distinct (map doc_id (collection s))"
    and d: "d \<in> set (collection s)" and cl: "doc_type d = Some ''classic''"
  have notsel: "doc_id d \<notin> doc_id ` set (docs_to_delete (collection s) max_items)"
  proof
    assume "doc_id d \<in> doc_id ` set (docs_to_delete (collection s) max_items)"
    then obtain d' where d': "d' \<in> set (docs_to_delete (collection s) max_items)"
      and same: "doc_id d = doc_id d'" by blast
    from d' have "d' \<in> set (collection s)" "doc_type d' \<noteq> Some ''classic''"
      using docs_to_delete_subset by blast+
    with distinct_ids_same[OF dist d _ same] cl show False by simp
  qed
  show "d \<in> set (collection (cleanup_old_items s max_items))"
    using d notsel by (simp add: cleanup_collection)
  fix e assume "e \<in> set (index s)" "fst e = doc_id d"
  then show "e \<in> set (index (cleanup_old_items s max_items))"
    using notsel by (simp add: cleanup_index)
next
  assume "docs_to_delete (collection s) max_items = []"
  then show "cleanup_old_items s max_items = s"
    by (simp add: cleanup_old_items_def)
qed

lemma small_store_selection:
  "map doc_id (docs_to_delete (collection small_store) 1) = [''c'', ''b'']"
  by (simp add: small_store_def mk_doc_def docs_to_delete_def)

lemma classic_only_selection: "docs_to_delete (collection classic_only_store) 1 = []"
  by (simp add: classic_only_store_def mk_doc_def docs_to_delete_def)

theorem cleanup_never_selects_classic_witness:
  "distinct (map doc_id (collection small_store))
   \<and> map doc_id (docs_to_delete (collection small_store) 1) = [''c'', ''b'']
   \<and> mk_doc ''a'' 1 ''classic'' \<in> set (collection (cleanup_old_items small_store 1))
   \<and> (''a'', [1]) \<in> set (index (cleanup_old_items small_store 1))
   \<and> docs_to_delete (collection classic_only_store) 1 = []
   \<and> cleanup_old_items classic_only_store 1 = classic_only_store"
proof -
  have d: "distinct (map doc_id (collection small_store))"
    by (simp add: small_store_def mk_doc_def)
  have m: "mk_doc ''a'' 1 ''classic'' \<in> set (collection small_store)"
    "doc_type (mk_doc ''a'' 1 ''classic'') = Some ''classic''"
    by (simp_all add: small_store_def mk_doc_def)
  have e: "(''a'', [1]) \<in> set (index small_store)"
    "fst (''a'', [1::real]) = doc_id (mk_doc ''a'' 1 ''classic'')"
    by (simp_all add: small_store_def mk_doc_def)
  have "mk_doc ''a'' 1 ''classic'' \<in> set (collection (cleanup_old_items small_store 1))
      \<and> (''a'', [1]) \<in> set (index (cleanup_old_items small_store 1))"
    using cleanup_never_selects_classic[of small_store 1] d m e by blast
  moreover have "cleanup_old_items classic_only_store 1 = classic_only_store"
    using cleanup_never_selects_classic[of classic_only_store 1] classic_only_selection
    by blast
  ultimately show ?thesis
    using d small_store_selection classic_only_selection by blast
qed

text \<open>
  Claim C2. On a store with unique ids whose count exceeds the cap, after the run the
  count is at most the cap or only classic documents remain. For 30,050 documents of
  which 3,000 are classic and a cap of 30,000, exactly 50 documents are selected, none
  classic, each at most as recent as every non-classic document that stays; they are
  removed from the collection and their ids from the index, and 30,000 documents remain.
\<close>

theorem cleanup_cap_convergence:
  assumes dist: "distinct (map doc_id (collection s))"
    and over: "int (length (collection s)) > max_items"
  shows "(int (length (collection (cleanup_old_items s max_items))) \<le> max_items
          \<or> (\<forall>d \<in> set (collection (cleanup_old_items s max_items)). doc_type d = Some ''classic''))
       \<and> (length (collection s) = 30050 \<longrightarrow>
          length (filter (\<lambda>d. doc_type d = Some ''classic'') (collection s)) = 3000 \<longrightarrow>
          max_items = 30000 \<longrightarrow>
            length (docs_to_delete (collection s) max_items) = 50
          \<and> (\<forall>d \<in> set (docs_to_delete (collection s) max_items). doc_type d \<noteq> Some ''classic'')
          \<and> (\<forall>d \<in> set (docs_to_delete (collection s) max_items).
               \<forall>d' \<in> set (collection (cleanup_old_items s max_items)).
                 doc_type d' \<noteq> Some ''classic'' \<longrightarrow> ingested_at d \<le> ingested_at d')
          \<and> collection (cleanup_old_items s max_items)
               = filter (\<lambda>d. d \<notin> set (docs_to_delete (collection s) max_items)) (collection s)
          \<and> index (cleanup_old_items s max_items)
               = filter (\<lambda>e. fst e \<notin> doc_id ` set (docs_to_delete (collection s) max_items)) (index s)
          \<and> length (collection (cleanup_old_items s max_items)) = 30000)"
proof (intro conjI impI)
  let ?coll = "collection s"
  let ?N = "filter (\<lambda>d. doc_type d \<noteq> Some ''classic'') ?coll"
  let ?e = "nat (int (length ?coll) - max_items)"
  show "int (length (collection (cleanup_old_items s max_items))) \<le> max_items
          \<or> (\<forall>d \<in> set (collection (cleanup_old_items s max_items)). doc_type d = Some ''classic'')"
  proof (cases "?e \<le> length ?N")
    case True
    from cleanup_selected_exact(3)[OF dist over True] show ?thesis
      using over by (simp add: cleanup_collection)
  next
    case False
    then have "length ?N \<le> ?e" by simp
    from cleanup_selected_all[OF dist this] show ?thesis
      using over by (simp add: cleanup_collection)
  qed
next
  let ?coll = "collection s"
  let ?N = "filter (\<lambda>d. doc_type d \<noteq> Some ''classic'') ?coll"
  assume n: "length ?coll = 30050"
    and k: "length (filter (\<lambda>d. doc_type d = Some ''classic'') ?coll) = 3000"
    and m: "max_items = 30000"
  have "length (filter (\<lambda>d. doc_type d = Some ''classic'') ?coll) + length ?N = length ?coll"
    by (rule sum_length_filter_compl)
  with n k have "length ?N = 27050" by simp
  with n m have enough: "nat (int (length ?coll) - max_items) \<le> length ?N" by simp
  note ex = cleanup_selected_exact[OF dist over enough]
  show "length (docs_to_delete ?coll max_items) = 50" using ex(1) n m by simp
  show "\<forall>d \<in> set (docs_to_delete ?coll max_items). doc_type d \<noteq> Some ''classic''"
    using docs_to_delete_subset by blast
  show "\<forall>d \<in> set (docs_to_delete ?coll max_items).
               \<forall>d' \<in> set (collection (cleanup_old_items s max_items)).
                 doc_type d' \<noteq> Some ''classic'' \<longrightarrow> ingested_at d \<le> ingested_at d'"
    using ex(4) over by (simp only: cleanup_collection if_True)
  show "collection (cleanup_old_items s max_items)
               = filter (\<lambda>d. d \<notin> set (docs_to_delete ?coll max_items)) ?coll"
    using ex(2) over by (simp only: cleanup_collection if_True)
  show "index (cleanup_old_items s max_items)
               = filter (\<lambda>e. fst e \<notin> doc_id ` set (docs_to_delete ?coll max_items)) (index s)"
    using over by (simp only: cleanup_index if_True)
  show "length (collection (cleanup_old_items s max_items)) = 30000"
    using ex(3) over m by (simp add: cleanup_collection)
qed

lemma length_filter_less_upt:
  "k \<le> n \<Longrightarrow> length (filter (\<lambda>i. i < k) [0..<n]) = k"
proof (induction n)
  case 0
  then show ?case by simp
next
  case (Suc n)
  show ?case
  proof (cases "k = Suc n")
    case True
    then show ?thesis by simp
  next
    case False
    with Suc show ?thesis by simp
  qed
qed

lemma corpus_distinct: "distinct (map doc_id (collection corpus_store))"
proof -
  have "inj_on (\<lambda>i. replicate i (CHR ''a'')) (set [0..<30050])"
    by (rule inj_onI) (metis length_replicate)
  then show ?thesis
    by (simp add: corpus_store_def corpus_doc_def comp_def distinct_map del: upt_rec_numeral)
qed

lemma corpus_length: "length (collection corpus_store) = 30050"
  by (simp add: corpus_store_def del: upt_rec_numeral)

lemma corpus_classic:
  "length (filter (\<lambda>d. doc_type d = Some ''classic'') (collection corpus_store)) = 3000"
proof -
  have "filter (\<lambda>d. doc_type d = Some ''classic'') (collection corpus_store)
          = map corpus_doc (filter (\<lambda>i. i < 3000) [0..<30050])"
    by (simp add: corpus_store_def filter_map comp_def corpus_doc_def del: upt_rec_numeral)
  then show ?thesis
    using length_filter_less_upt[of 3000 30050] by (simp del: upt_rec_numeral)
qed

theorem cleanup_cap_convergence_witness:
  "distinct (map doc_id (collection corpus_store))
   \<and> int (length (collection corpus_store)) > 30000
   \<and> length (collection corpus_store) = 30050
   \<and> length (filter (\<lambda>d. doc_type d = Some ''classic'') (collection corpus_store)) = 3000
   \<and> length (docs_to_delete (collection corpus_store) 30000) = 50
   \<and> length (collection (cleanup_old_items corpus_store 30000)) = 30000"
proof -
  have over: "30000 < int (length (collection corpus_store))"
    by (simp add: corpus_length)
  have "length (docs_to_delete (collection corpus_store) 30000) = 50
      \<and> length (collection (cleanup_old_items corpus_store 30000)) = 30000"
    using cleanup_cap_convergence[OF corpus_distinct over] corpus_length corpus_classic
    by blast
  then show ?thesis
    using corpus_distinct over corpus_length corpus_classic by blast
qed

section \<open>Query engine: lemmas and theorems\<close>

lemma res_id_result_entry [simp]: "res_id (result_entry d v) = doc_id d"
  by (simp add: result_entry_def)

lemma merge_metadata_Cons:
  "merge_metadata sc (rs, seen) (meta # rest) =
     (if doc_id meta \<notin> seen
      then merge_metadata sc
             (rs @ [result_entry meta (case sc (doc_id meta) of None \<Rightarrow> 0 | Some v \<Rightarrow> v)],
              insert (doc_id meta) seen) rest
      else merge_metadata sc (rs, seen) rest)"
  by (simp add: Let_def)

declare merge_metadata.simps(2) [simp del]

lemma merge_metadata_seen:
  "snd acc = res_id ` set (fst acc) \<Longrightarrow>
     snd (merge_metadata sc acc docs) = res_id ` set (fst (merge_metadata sc acc docs))"
proof (induction docs arbitrary: acc)
  case Nil
  then show ?case by simp
next
  case (Cons meta rest)
  obtain rs seen where acc: "acc = (rs, seen)" by (cases acc)
  show ?case
  proof (cases "doc_id meta \<in> seen")
    case True
    then show ?thesis using Cons acc by (simp add: merge_metadata_Cons)
  next
    case False
    let ?acc' = "(rs @ [result_entry meta (case sc (doc_id meta) of None \<Rightarrow> 0 | Some v \<Rightarrow> v)],
                  insert (doc_id meta) seen)"
    have "snd ?acc' = res_id ` set (fst ?acc')"
      using Cons.prems acc by simp
    from Cons.IH[OF this] show ?thesis using False acc by (simp add: merge_metadata_Cons)
  qed
qed


lemma merge_metadata_keeps:
  "X \<in> snd acc \<Longrightarrow>
     filter (\<lambda>r. res_id r = X) (fst (merge_metadata sc acc docs)) = filter (\<lambda>r. res_id r = X) (fst acc)
     \<and> X \<in> snd (merge_metadata sc acc docs)"
proof (induction docs arbitrary: acc)
  case Nil
  then show ?case by simp
next
  case (Cons meta rest)
  obtain rs seen where acc: "acc = (rs, seen)" by (cases acc)
  show ?case
  proof (cases "doc_id meta \<in> seen")
    case True
    then show ?thesis using Cons acc by (simp add: merge_metadata_Cons)
  next
    case False
    let ?acc' = "(rs @ [result_entry meta (case sc (doc_id meta) of None \<Rightarrow> 0 | Some v \<Rightarrow> v)],
                  insert (doc_id meta) seen)"
    have ne: "doc_id meta \<noteq> X" using False Cons.prems acc by auto
    have "X \<in> snd ?acc'" using Cons.prems acc by simp
    from Cons.IH[OF this] show ?thesis using False acc ne by (simp add: merge_metadata_Cons)
  qed
qed

lemma merge_metadata_absent:
  "X \<notin> snd acc \<Longrightarrow> X \<notin> doc_id ` set docs \<Longrightarrow>
     filter (\<lambda>r. res_id r = X) (fst (merge_metadata sc acc docs)) = filter (\<lambda>r. res_id r = X) (fst acc)
     \<and> X \<notin> snd (merge_metadata sc acc docs)"
proof (induction docs arbitrary: acc)
  case Nil
  then show ?case by simp
next
  case (Cons meta rest)
  obtain rs seen where acc: "acc = (rs, seen)" by (cases acc)
  have ne: "doc_id meta \<noteq> X" using Cons.prems by auto
  have rest: "X \<notin> doc_id ` set rest" using Cons.prems by auto
  show ?case
  proof (cases "doc_id meta \<in> seen")
    case True
    then show ?thesis using Cons.IH[of acc] Cons.prems rest acc by (simp add: merge_metadata_Cons)
  next
    case False
    let ?acc' = "(rs @ [result_entry meta (case sc (doc_id meta) of None \<Rightarrow> 0 | Some v \<Rightarrow> v)],
                  insert (doc_id meta) seen)"
    have "X \<notin> snd ?acc'" using Cons.prems acc ne by simp
    from Cons.IH[OF this rest] show ?thesis using False acc ne by (simp add: merge_metadata_Cons)
  qed
qed

lemma merge_metadata_captures:
  "X \<notin> snd acc \<Longrightarrow> d \<in> set docs \<Longrightarrow> doc_id d = X \<Longrightarrow> distinct (map doc_id docs) \<Longrightarrow>
     filter (\<lambda>r. res_id r = X) (fst (merge_metadata sc acc docs))
       = filter (\<lambda>r. res_id r = X) (fst acc)
           @ [result_entry d (case sc X of None \<Rightarrow> 0 | Some v \<Rightarrow> v)]
     \<and> X \<in> snd (merge_metadata sc acc docs)"
proof (induction docs arbitrary: acc)
  case Nil
  then show ?case by simp
next
  case (Cons meta rest)
  obtain rs seen where acc: "acc = (rs, seen)" by (cases acc)
  show ?case
  proof (cases "meta = d")
    case True
    let ?acc' = "(rs @ [result_entry d (case sc X of None \<Rightarrow> 0 | Some v \<Rightarrow> v)], insert X seen)"
    have "X \<in> snd ?acc'" by simp
    from merge_metadata_keeps[OF this, of sc rest] show ?thesis
      using True Cons.prems acc by (simp add: merge_metadata_Cons)
  next
    case False
    then have d: "d \<in> set rest" using Cons.prems by simp
    then have ne: "doc_id meta \<noteq> X" using Cons.prems by force
    have dist: "distinct (map doc_id rest)" using Cons.prems by simp
    show ?thesis
    proof (cases "doc_id meta \<in> seen")
      case True
      then show ?thesis using Cons.IH[OF _ d _ dist, of acc] Cons.prems acc by (simp add: merge_metadata_Cons)
    next
      case False
      let ?acc' = "(rs @ [result_entry meta (case sc (doc_id meta) of None \<Rightarrow> 0 | Some v \<Rightarrow> v)],
                    insert (doc_id meta) seen)"
      have "X \<notin> snd ?acc'" using Cons.prems acc ne by simp
      from Cons.IH[OF this d _ dist] show ?thesis
        using False acc ne Cons.prems by (simp add: merge_metadata_Cons)
    qed
  qed
qed

lemma find_by_ids_ids: "doc_id ` set (find_by_ids coll ids) \<subseteq> set ids"
  by (auto simp: find_by_ids_def)

lemma process_query_keeps:
  "X \<in> snd acc \<Longrightarrow>
     filter (\<lambda>r. res_id r = X) (fst (process_query coll respond acc q))
       = filter (\<lambda>r. res_id r = X) (fst acc)
     \<and> X \<in> snd (process_query coll respond acc q)"
  by (simp add: process_query_def Let_def merge_metadata_keeps split: query_outcome.splits)

lemma process_query_absent:
  assumes "X \<notin> snd acc"
    and "\<forall>ms. respond (strip q) = Matches ms \<longrightarrow> X \<notin> fst ` set ms"
  shows "filter (\<lambda>r. res_id r = X) (fst (process_query coll respond acc q))
           = filter (\<lambda>r. res_id r = X) (fst acc)
         \<and> X \<notin> snd (process_query coll respond acc q)"
proof (cases "respond (strip q)")
  case Query_failed
  then show ?thesis using assms(1) by (simp add: process_query_def)
next
  case (Matches ms)
  then have "X \<notin> fst ` set ms" using assms(2) by simp
  then have "X \<notin> doc_id ` set (find_by_ids coll (map fst ms))"
    using find_by_ids_ids[of coll "map fst ms"] by auto
  from merge_metadata_absent[OF assms(1) this] show ?thesis
    using Matches assms(1) by (simp add: process_query_def Let_def)
qed

lemma process_query_captures:
  assumes "X \<notin> snd acc" and "respond (strip q) = Matches ms"
    and "id_to_score ms X = Some v"
    and "distinct (map doc_id coll)" and "d \<in> set coll" and "doc_id d = X"
  shows "filter (\<lambda>r. res_id r = X) (fst (process_query coll respond acc q))
           = filter (\<lambda>r. res_id r = X) (fst acc) @ [result_entry d v]
         \<and> X \<in> snd (process_query coll respond acc q)"
proof -
  have "(X, v) \<in> set (rev ms)"
    using assms(3) unfolding id_to_score_def by (rule map_of_SomeD)
  then have X: "X \<in> set (map fst ms)" by force
  then have ne: "map fst ms \<noteq> []" by auto
  have d: "d \<in> set (find_by_ids coll (map fst ms))"
    using X assms(5,6) by (simp add: find_by_ids_def)
  have dist: "distinct (map doc_id (find_by_ids coll (map fst ms)))"
    using assms(4) by (simp add: find_by_ids_def distinct_map_filter)
  from merge_metadata_captures[OF assms(1) d assms(6) dist, of "id_to_score ms"]
  show ?thesis using assms(2,3) ne by (simp add: process_query_def Let_def)
qed

lemma foldl_process_query_keeps:
  "X \<in> snd acc \<Longrightarrow>
     filter (\<lambda>r. res_id r = X) (fst (foldl (process_query coll respond) acc qs))
       = filter (\<lambda>r. res_id r = X) (fst acc)"
proof (induction qs arbitrary: acc)
  case Nil
  then show ?case by simp
next
  case (Cons q qs)
  from process_query_keeps[OF Cons.prems, of coll respond q] Cons.IH[of "process_query coll respond acc q"]
  show ?case by simp
qed

lemma foldl_process_query_absent:
  "X \<notin> snd acc \<Longrightarrow>
   \<forall>q \<in> set qs. \<forall>ms. respond (strip q) = Matches ms \<longrightarrow> X \<notin> fst ` set ms \<Longrightarrow>
     filter (\<lambda>r. res_id r = X) (fst (foldl (process_query coll respond) acc qs))
       = filter (\<lambda>r. res_id r = X) (fst acc)
     \<and> X \<notin> snd (foldl (process_query coll respond) acc qs)"
proof (induction qs arbitrary: acc)
  case Nil
  then show ?case by simp
next
  case (Cons q qs)
  have q: "\<forall>ms. respond (strip q) = Matches ms \<longrightarrow> X \<notin> fst ` set ms"
    and qs: "\<forall>q \<in> set qs. \<forall>ms. respond (strip q) = Matches ms \<longrightarrow> X \<notin> fst ` set ms"
    using Cons.prems(2) by simp_all
  have step: "filter (\<lambda>r. res_id r = X) (fst (process_query coll respond acc q))
           = filter (\<lambda>r. res_id r = X) (fst acc)
         \<and> X \<notin> snd (process_query coll respond acc q)"
    using Cons.prems(1) q by (rule process_query_absent)
  from Cons.IH[OF conjunct2[OF step] qs] step show ?case by simp
qed



lemma perform_search_subset:
  "set (perform_search coll respond qs) \<subseteq> set (fst (merged_results coll respond qs))"
proof
  fix r assume "r \<in> set (perform_search coll respond qs)"
  then have "r \<in> set (sort_key (\<lambda>x. - score x) (fst (merged_results coll respond qs)))"
    unfolding perform_search_def by (rule in_set_takeD)
  then show "r \<in> set (fst (merged_results coll respond qs))" by simp
qed

text \<open>
  Claim C7. Let the query \<open>q1\<close> be the first of the run whose matches contain the id of a
  stored document \<open>d\<close>, with score \<open>s1\<close>. Whatever queries follow, and whatever scores
  they give to that id, the merged results hold exactly one entry for the id, the one
  built from \<open>q1\<close> with score \<open>s1\<close>, and any entry for the id in the returned list is
  that entry.
\<close>

theorem first_query_wins:
  assumes "distinct (map doc_id coll)" and "d \<in> set coll"
    and "respond (strip q1) = Matches ms1" and "id_to_score ms1 (doc_id d) = Some s1"
    and "\<forall>q \<in> set pre. \<forall>ms. respond (strip q) = Matches ms \<longrightarrow> doc_id d \<notin> fst ` set ms"
  shows "filter (\<lambda>r. res_id r = doc_id d) (fst (merged_results coll respond (pre @ q1 # post)))
           = [result_entry d s1]
       \<and> (\<forall>r \<in> set (perform_search coll respond (pre @ q1 # post)).
             res_id r = doc_id d \<longrightarrow> r = result_entry d s1 \<and> score r = s1)"
proof -
  let ?X = "doc_id d"
  let ?pq = "process_query coll respond"
  let ?a0 = "([], {}) :: result list \<times> string set"
  let ?a1 = "foldl ?pq ?a0 pre"
  let ?a2 = "?pq ?a1 q1"
  have "?X \<notin> snd ?a0" by simp
  from foldl_process_query_absent[OF this assms(5), of coll]
  have a1: "filter (\<lambda>r. res_id r = ?X) (fst ?a1) = []" "?X \<notin> snd ?a1" by simp_all
  have "filter (\<lambda>r. res_id r = ?X) (fst ?a2)
           = filter (\<lambda>r. res_id r = ?X) (fst ?a1) @ [result_entry d s1]
         \<and> ?X \<in> snd ?a2"
    using a1(2) assms(3,4,1,2) refl by (rule process_query_captures)
  then have a2: "filter (\<lambda>r. res_id r = ?X) (fst ?a2) = [result_entry d s1]" "?X \<in> snd ?a2"
    using a1(1) by simp_all
  have all: "filter (\<lambda>r. res_id r = ?X) (fst (merged_results coll respond (pre @ q1 # post)))
           = [result_entry d s1]"
    using foldl_process_query_keeps[OF a2(2), of coll respond post] a2(1)
    by (simp add: merged_results_def)
  have "r = result_entry d s1 \<and> score r = s1"
    if "r \<in> set (perform_search coll respond (pre @ q1 # post))" "res_id r = ?X" for r
  proof -
    from that have "r \<in> set (filter (\<lambda>r. res_id r = ?X)
        (fst (merged_results coll respond (pre @ q1 # post))))"
      using perform_search_subset by fastforce
    then have "r = result_entry d s1" unfolding all by simp
    then show ?thesis by (simp add: result_entry_def)
  qed
  with all show ?thesis by blast
qed

text \<open>
  Claim C8. For any queries, the returned list has at most 25 entries and its scores
  are in descending order.
\<close>

theorem result_budget:
  "length (perform_search coll respond queries) \<le> 25
   \<and> sorted_wrt (\<lambda>a b. score a \<ge> score b) (perform_search coll respond queries)"
proof
  show "length (perform_search coll respond queries) \<le> 25"
    by (simp add: perform_search_def)
  have "sorted (map (\<lambda>x. - score x)
      (sort_key (\<lambda>x. - score x) (fst (merged_results coll respond queries))))"
    by (rule sorted_sort_key)
  then have "sorted_wrt (\<lambda>a b. score a \<ge> score b)
      (sort_key (\<lambda>x. - score x) (fst (merged_results coll respond queries)))"
    by (simp add: sorted_map)
  then show "sorted_wrt (\<lambda>a b. score a \<ge> score b) (perform_search coll respond queries)"
    unfolding perform_search_def by (rule sorted_wrt_take)
qed


lemma strip_q1: "strip '' q1 '' = ''q1''"
  by (simp add: strip_def whitespace_def strip_left.simps)

lemma strip_unicode:
  "strip [CHR 0xC2, CHR 0xA0, CHR ''q'', CHR '' '', CHR ''r'', CHR 0xE2, CHR 0x80, CHR 0xA8, CHR 0x0A]
     = ''q r''"
  by (simp add: strip_def whitespace_def strip_left.simps)

lemma strip_plain: "strip ''q2'' = ''q2''" "strip ''bad'' = ''bad''"
  by (simp_all add: strip_def whitespace_def strip_left.simps)

lemma two_query_search:
  "perform_search (collection small_store) two_query_respond [''bad'', '' q1 '', ''q2'']
     = [result_entry (mk_doc ''c'' 3 ''recent'') 0.7, result_entry (mk_doc ''b'' 5 ''recent'') 0.5]"
  by (simp add: perform_search_def merged_results_def process_query_def strip_q1 strip_plain
      two_query_respond_def small_store_def find_by_ids_def mk_doc_def merge_metadata_Cons
      id_to_score_def result_entry_def)

theorem first_query_wins_witness:
  "distinct (map doc_id (collection small_store))
   \<and> mk_doc ''b'' 5 ''recent'' \<in> set (collection small_store)
   \<and> two_query_respond (strip '' q1 '') = Matches [(''b'', 0.5), (''zz'', 0.4)]
   \<and> two_query_respond (strip ''q2'') = Matches [(''b'', 0.9), (''c'', 0.7)]
   \<and> id_to_score [(''b'', 0.5), (''zz'', 0.4)] (doc_id (mk_doc ''b'' 5 ''recent'')) = Some 0.5
   \<and> two_query_respond (strip ''bad'') = Query_failed
   \<and> filter (\<lambda>r. res_id r = doc_id (mk_doc ''b'' 5 ''recent''))
        (fst (merged_results (collection small_store) two_query_respond ([''bad''] @ '' q1 '' # [''q2''])))
        = [result_entry (mk_doc ''b'' 5 ''recent'') 0.5]
   \<and> result_entry (mk_doc ''b'' 5 ''recent'') 0.5
        \<in> set (perform_search (collection small_store) two_query_respond [''bad'', '' q1 '', ''q2''])"
proof -
  have h1: "distinct (map doc_id (collection small_store))"
    by (simp add: small_store_def mk_doc_def)
  have h2: "mk_doc ''b'' 5 ''recent'' \<in> set (collection small_store)"
    by (simp add: small_store_def)
  have h3: "two_query_respond (strip '' q1 '') = Matches [(''b'', 0.5), (''zz'', 0.4)]"
    by (simp add: strip_q1 two_query_respond_def)
  have h3': "two_query_respond (strip ''q2'') = Matches [(''b'', 0.9), (''c'', 0.7)]"
    by (simp add: strip_plain two_query_respond_def)
  have h4: "id_to_score [(''b'', 0.5), (''zz'', 0.4)] (doc_id (mk_doc ''b'' 5 ''recent'')) = Some 0.5"
    by (simp add: id_to_score_def mk_doc_def)
  have h5: "\<forall>q \<in> set [''bad'']. \<forall>ms. two_query_respond (strip q) = Matches ms \<longrightarrow>
         doc_id (mk_doc ''b'' 5 ''recent'') \<notin> fst ` set ms"
    by (simp add: strip_plain two_query_respond_def)
  note t = first_query_wins[OF h1 h2 h3 h4 h5, of "[''q2'']"]
  have "result_entry (mk_doc ''b'' 5 ''recent'') 0.5
        \<in> set (perform_search (collection small_store) two_query_respond [''bad'', '' q1 '', ''q2''])"
    by (simp add: two_query_search)
  moreover have "two_query_respond (strip ''bad'') = Query_failed"
    by (simp add: strip_plain two_query_respond_def)
  ultimately show ?thesis using t h1 h2 h3 h3' h4 by blast
qed


section \<open>Candidate discovery: lemmas and theorems\<close>

lemma set_add_distinct: "distinct s \<Longrightarrow> distinct (set_add s x)"
  by (simp add: set_add_def)

lemma set_add_set: "set (set_add s x) = insert x (set s)"
  by (auto simp: set_add_def)

lemma set_update_distinct: "distinct s \<Longrightarrow> distinct (set_update s xs)"
  unfolding set_update_def
  by (induction xs arbitrary: s) (simp_all add: set_add_distinct)

lemma set_update_set: "set (set_update s xs) = set s \<union> set xs"
  unfolding set_update_def
  by (induction xs arbitrary: s) (simp_all add: set_add_set)

lemma to_set_distinct: "distinct (to_set xs)"
  by (simp add: to_set_def set_update_distinct)

lemma to_set_set: "set (to_set xs) = set xs"
  by (simp add: to_set_def set_update_set)

lemma set_union_distinct: "distinct s \<Longrightarrow> distinct (set_union s t)"
  by (simp add: set_union_def set_update_distinct)

lemma set_union_set: "set (set_union s t) = set s \<union> set t"
  by (simp add: set_union_def set_update_set)

lemma overlap_github:
  "fetch_classic_ids_from_github id overlap_get 2 = [''1706.03762'', ''1810.04805'']"
  by (simp add: fetch_classic_ids_from_github_def awesome_lists_def overlap_get_def
      set_update_def set_add_def)

lemma overlap_scholar:
  "fetch_classic_ids_from_semantic_scholar id overlap_api (Suc 0)
     = ([''2005.14165''], [Request 0])"
  by (simp add: fetch_classic_ids_from_semantic_scholar_def scholar_loop.simps
      fetch_page.simps max_retries_def overlap_api_def)

lemma overlap_combined:
  "combined_ids id overlap_get overlap_api 2 = [''1706.03762'', ''1810.04805'', ''2005.14165'']"
  by (simp add: combined_ids_def overlap_github overlap_scholar set_union_def to_set_def
      set_update_def set_add_def)

lemma add_items_bound:
  "length ids < n \<Longrightarrow> length (add_items n ids items) \<le> n"
proof (induction items arbitrary: ids)
  case Nil
  then show ?case by simp
next
  case (Cons it items)
  show ?case
  proof (cases it)
    case None
    then show ?thesis using Cons by simp
  next
    case (Some a)
    show ?thesis
    proof (cases "a \<noteq> [] \<and> a \<notin> set ids")
      case False
      then show ?thesis using Cons Some by auto
    next
      case True
      show ?thesis
      proof (cases "n \<le> length (ids @ [a])")
        case True
        then show ?thesis using \<open>a \<noteq> [] \<and> a \<notin> set ids\<close> Some Cons.prems by simp
      next
        case False
        then have "length (ids @ [a]) < n" by simp
        from Cons.IH[OF this] show ?thesis
          using \<open>a \<noteq> [] \<and> a \<notin> set ids\<close> Some False by simp
      qed
    qed
  qed
qed

lemma scholar_loop_bound:
  "length ids \<le> n \<Longrightarrow> length (fst (scholar_loop api n offset ids tr)) \<le> n"
proof (induction api n offset ids tr rule: scholar_loop.induct)
  case (1 api n offset ids tr)
  show ?case
  proof (cases "length ids < n")
    case False
    then show ?thesis using "1.prems" by (subst scholar_loop.simps) simp
  next
    case True
    obtain items tr1 where page: "fetch_page api offset 0 tr = (items, tr1)"
      by (cases "fetch_page api offset 0 tr")
    note bound = add_items_bound[OF True, of items]
    show ?thesis
    proof (cases "items = [] \<or> n \<le> length (add_items n ids items)
        \<or> offset + scholar_limit > 9900")
      case True
      then show ?thesis using \<open>length ids < n\<close> page bound "1.prems"
        by (subst scholar_loop.simps) (auto simp: Let_def)
    next
      case False
      have "length (fst (scholar_loop api n (offset + scholar_limit) (add_items n ids items)
          (tr1 @ [Sleep 2]))) \<le> n"
        using False \<open>length ids < n\<close> bound
        by (intro "1.IH"[OF _ page[symmetric] _ refl]) auto
      then show ?thesis using False \<open>length ids < n\<close> page
        by (subst scholar_loop.simps) (simp add: Let_def)
    qed
  qed
qed

text \<open>
  Claim C4. The merged candidates are the union of the two sources and hold each id
  once; the two sets of the example merge to three ids. The list from the text-mining
  source is cut to \<open>limit\<close> ids; the loop of the ranked API stops by itself at
  \<open>limit div 2\<close> ids; the union is not cut: with \<open>limit = 2\<close>, two ids from the
  text-mining source and one from the ranked API make three candidates.
\<close>

theorem candidate_merge:
  "distinct (combined_ids order get api limit)
   \<and> set (combined_ids order get api limit)
       = set (fetch_classic_ids_from_github order get limit)
         \<union> set (fst (fetch_classic_ids_from_semantic_scholar order api (limit div 2)))
   \<and> set_union (to_set [''1706.03762'', ''1810.04805'']) (to_set [''1810.04805'', ''2005.14165''])
       = [''1706.03762'', ''1810.04805'', ''2005.14165'']
   \<and> length (fetch_classic_ids_from_github order get limit) \<le> limit
   \<and> length (fst (scholar_loop api (limit div 2) 0 [] [])) \<le> limit div 2
   \<and> length (combined_ids id overlap_get overlap_api 2) = 3"
proof (intro conjI)
  show "distinct (combined_ids order get api limit)"
    by (simp add: combined_ids_def Let_def set_union_distinct to_set_distinct)
  show "set (combined_ids order get api limit)
       = set (fetch_classic_ids_from_github order get limit)
         \<union> set (fst (fetch_classic_ids_from_semantic_scholar order api (limit div 2)))"
    by (simp add: combined_ids_def Let_def set_union_set to_set_set)
  show "set_union (to_set [''1706.03762'', ''1810.04805'']) (to_set [''1810.04805'', ''2005.14165''])
       = [''1706.03762'', ''1810.04805'', ''2005.14165'']"
    by (simp add: set_union_def to_set_def set_update_def set_add_def)
  show "length (fetch_classic_ids_from_github order get limit) \<le> limit"
    by (simp add: fetch_classic_ids_from_github_def)
  show "length (fst (scholar_loop api (limit div 2) 0 [] [])) \<le> limit div 2"
    by (rule scholar_loop_bound) simp
  show "length (combined_ids id overlap_get overlap_api 2) = 3"
    by (simp add: overlap_combined)
qed

lemma failed_attempts_step:
  "i < j \<Longrightarrow> failed_attempts api offset i j
     = [Request offset, Sleep (cooldown (api offset i))] @ failed_attempts api offset (Suc i) j"
  by (simp add: failed_attempts_def upt_conv_Cons)

lemma failed_attempts_empty: "failed_attempts api offset i i = []"
  by (simp add: failed_attempts_def)

lemma fetch_page_failure_step:
  assumes "retries < max_retries" "is_failure (api offset retries)"
  shows "fetch_page api offset retries tr
     = fetch_page api offset (Suc retries)
         (tr @ [Request offset, Sleep (cooldown (api offset retries))])"
  using assms
  by (subst fetch_page.simps)
     (simp add: is_failure_def cooldown_def split: response.splits)

lemma fetch_page_retries:
  assumes "k \<le> max_retries" "\<forall>j. i \<le> j \<and> j < k \<longrightarrow> is_failure (api offset j)" "i \<le> k"
  shows "fetch_page api offset i tr
     = fetch_page api offset k (tr @ failed_attempts api offset i k)"
  using assms
proof (induction "k - i" arbitrary: i tr)
  case 0
  then show ?case by (simp add: failed_attempts_empty)
next
  case (Suc m)
  then have lt: "i < k" by simp
  with Suc.prems have f: "is_failure (api offset i)" and r: "i < max_retries" by auto
  have "fetch_page api offset (Suc i) (tr @ [Request offset, Sleep (cooldown (api offset i))])
      = fetch_page api offset k
          ((tr @ [Request offset, Sleep (cooldown (api offset i))])
             @ failed_attempts api offset (Suc i) k)"
    using Suc.hyps(2) Suc.prems lt by (intro Suc.hyps(1)) auto
  then show ?case
    using fetch_page_failure_step[of i api offset tr, OF r f]
      failed_attempts_step[OF lt, of api offset]
    by simp
qed

lemma fetch_page_exhausted:
  "fetch_page api offset max_retries tr = ([], tr)"
  by (subst fetch_page.simps) simp

lemma fetch_page_success:
  "k < max_retries \<Longrightarrow> api offset k = Json items \<Longrightarrow>
     fetch_page api offset k tr = (items, tr @ [Request offset])"
  by (subst fetch_page.simps) simp

text \<open>
  Claim C6, as amended. While fewer than \<open>max_retries\<close> requests for a page have failed,
  a failure (status 429 or an exception) is followed by a fixed sleep, of 60 or of 5
  seconds, and by a new request for the same page; a page obtained at request \<open>k\<close>
  is returned after exactly \<open>k\<close> such failures. When all \<open>max_retries\<close> requests for a
  page fail, the loop over the pages ends there: the ids collected so far are returned
  and no later page is requested.
\<close>

theorem scholar_retry_then_stop:
  "(k < max_retries \<longrightarrow> (\<forall>j < k. is_failure (api offset j)) \<longrightarrow> api offset k = Json items \<longrightarrow>
      fetch_page api offset 0 tr
        = (items, tr @ failed_attempts api offset 0 k @ [Request offset]))
   \<and> ((\<forall>j < max_retries. is_failure (api offset j)) \<longrightarrow>
      fetch_page api offset 0 tr = ([], tr @ failed_attempts api offset 0 max_retries)
      \<and> (length classic_ids < n \<longrightarrow>
           scholar_loop api n offset classic_ids tr
             = (classic_ids, tr @ failed_attempts api offset 0 max_retries)))"
proof (intro conjI impI)
  assume k: "k < max_retries" and f: "\<forall>j < k. is_failure (api offset j)"
    and ok: "api offset k = Json items"
  have "fetch_page api offset 0 tr
      = fetch_page api offset k (tr @ failed_attempts api offset 0 k)"
    using k f by (intro fetch_page_retries) auto
  then show "fetch_page api offset 0 tr
        = (items, tr @ failed_attempts api offset 0 k @ [Request offset])"
    using fetch_page_success[of k api offset items, OF k ok] by simp
next
  assume f: "\<forall>j < max_retries. is_failure (api offset j)"
  have "fetch_page api offset 0 tr
      = fetch_page api offset max_retries (tr @ failed_attempts api offset 0 max_retries)"
    using f by (intro fetch_page_retries) auto
  then show page: "fetch_page api offset 0 tr
      = ([], tr @ failed_attempts api offset 0 max_retries)"
    by (simp add: fetch_page_exhausted)
  assume "length classic_ids < n"
  then show "scholar_loop api n offset classic_ids tr
             = (classic_ids, tr @ failed_attempts api offset 0 max_retries)"
    by (subst scholar_loop.simps) (simp add: page)
qed

lemma stalled_run:
  "fetch_classic_ids_from_semantic_scholar id stalled_api 5
     = ([''1706.03762''],
        [Request 0, Sleep 2, Request 100, Sleep 60, Request 100, Sleep 5, Request 100, Sleep 60])"
  by (simp add: fetch_classic_ids_from_semantic_scholar_def scholar_loop.simps
      fetch_page.simps max_retries_def scholar_limit_def stalled_api_def)

text \<open>
  Claim C6, as stated, fails: the page at offset 0 gives one id, the three requests for
  the page at offset 100 fail, and the page at offset 200, which holds another id, is
  never requested.
\<close>

theorem scholar_page_abandoned_counterexample:
  "stalled_api 200 0 = Json [Some ''1810.04805'']
   \<and> fst (fetch_classic_ids_from_semantic_scholar id stalled_api 5) = [''1706.03762'']
   \<and> Request 200 \<notin> set (snd (fetch_classic_ids_from_semantic_scholar id stalled_api 5))"
  by (simp add: stalled_run) (simp add: stalled_api_def)

theorem scholar_retry_then_stop_witness:
  "is_failure (flaky_api 0 0) \<and> is_failure (flaky_api 0 1)
   \<and> flaky_api 0 2 = Json [Some ''1706.03762'']
   \<and> fetch_page flaky_api 0 0 []
       = ([Some ''1706.03762''], [Request 0, Sleep 60, Request 0, Sleep 5, Request 0])
   \<and> is_failure (stalled_api 100 0) \<and> is_failure (stalled_api 100 1)
   \<and> is_failure (stalled_api 100 2)
   \<and> scholar_loop stalled_api 5 100 [''1706.03762''] [Request 0, Sleep 2]
       = ([''1706.03762''],
          [Request 0, Sleep 2, Request 100, Sleep 60, Request 100, Sleep 5, Request 100, Sleep 60])"
proof -
  have f: "is_failure (flaky_api 0 0)" "is_failure (flaky_api 0 1)"
    "flaky_api 0 2 = Json [Some ''1706.03762'']"
    by (simp_all add: flaky_api_def is_failure_def)
  have f2: "\<forall>j < 2. is_failure (flaky_api 0 j)"
    by (simp add: flaky_api_def is_failure_def)
  have s: "is_failure (stalled_api 100 0)" "is_failure (stalled_api 100 1)"
    "is_failure (stalled_api 100 2)"
    by (simp_all add: stalled_api_def is_failure_def)
  have s3: "\<forall>j < max_retries. is_failure (stalled_api 100 j)"
    by (simp add: stalled_api_def is_failure_def)
  have fa: "failed_attempts flaky_api 0 0 2 = [Request 0, Sleep 60, Request 0, Sleep 5]"
    by (simp add: failed_attempts_def flaky_api_def cooldown_def upt_conv_Cons numeral_2_eq_2)
  have sa: "failed_attempts stalled_api 100 0 max_retries
      = [Request 100, Sleep 60, Request 100, Sleep 5, Request 100, Sleep 60]"
    by (simp add: failed_attempts_def stalled_api_def cooldown_def max_retries_def
        upt_conv_Cons numeral_3_eq_3)
  have "fetch_page flaky_api 0 0 []
       = ([Some ''1706.03762''], [Request 0, Sleep 60, Request 0, Sleep 5, Request 0])"
    using scholar_retry_then_stop[of 2 flaky_api 0 "[Some ''1706.03762'']" "[]"] f2 f(3) fa
    by (simp add: max_retries_def)
  moreover have "scholar_loop stalled_api 5 100 [''1706.03762''] [Request 0, Sleep 2]
       = ([''1706.03762''],
          [Request 0, Sleep 2, Request 100, Sleep 60, Request 100, Sleep 5, Request 100, Sleep 60])"
    using scholar_retry_then_stop[of 0 stalled_api 100 "[]" "[Request 0, Sleep 2]"
        "[''1706.03762'']" 5] s3 sa
    by simp
  ultimately show ?thesis using f s by blast
qed

section \<open>Ingestion pipeline: lemmas and theorems\<close>

lemma apply_update_one_ids:
  "doc_id ` set (apply_update_one c u) = insert (filter_id u) (doc_id ` set c)"
  by (induction c) (auto simp: inserted_document_def set_fields_def)

lemma foldl_apply_update_one_ids:
  "doc_id ` set (foldl apply_update_one c ops) = doc_id ` set c \<union> filter_id ` set ops"
  by (induction ops arbitrary: c) (auto simp: apply_update_one_ids)

lemma upsert_vector_ids:
  "fst ` set (upsert_vector ix kv) = insert (fst kv) (fst ` set ix)"
  by (induction ix) auto

lemma foldl_upsert_vector_ids:
  "fst ` set (foldl upsert_vector ix vs) = fst ` set ix \<union> fst ` set vs"
  by (induction vs arbitrary: ix) (auto simp: upsert_vector_ids)

lemma flush_batches_simps:
  "collection (stores (flush_batches s)) = pending_collection s"
  "index (stores (flush_batches s)) = pending_index s"
  "calls (stores (flush_batches s))
     = calls (stores s) @ [Index_upsert (map fst (vectors_batch s)),
                           Bulk_write (map filter_id (mongo_batch s))]"
  "processed_ids (flush_batches s) = processed_ids s"
  "vectors_batch (flush_batches s) = vectors_batch s"
  "mongo_batch (flush_batches s) = mongo_batch s"
  "ingested (flush_batches s) = ingested s"
  by (simp_all add: flush_batches_def bulk_write_def index_upsert_def pending_collection_def
      pending_index_def)

lemma threshold_flush_pending:
  "pending_collection (threshold_flush s) = pending_collection s"
  "pending_index (threshold_flush s) = pending_index s"
  "processed_ids (threshold_flush s) = processed_ids s"
  "ingested (threshold_flush s) = ingested s"
  by (simp_all add: threshold_flush_def flush_batches_simps)
     (simp_all add: pending_collection_def pending_index_def flush_batches_def bulk_write_def
       index_upsert_def)

lemma threshold_flush_aligned: "aligned s \<Longrightarrow> aligned (threshold_flush s)"
  by (simp add: threshold_flush_def aligned_def)

lemma stage_pending:
  "pending_collection (stage s v u) = apply_update_one (pending_collection s) u"
  "pending_index (stage s v u) = upsert_vector (pending_index s) v"
  "processed_ids (stage s v u) = insert (fst v) (processed_ids s)"
  "ingested (stage s v u) = ingested s + 1"
  "stores (stage s v u) = stores s"
  by (simp_all add: stage_def pending_collection_def pending_index_def)

lemma stage_aligned: "aligned s \<Longrightarrow> fst v = filter_id u \<Longrightarrow> aligned (stage s v u)"
  by (simp add: stage_def aligned_def)

lemma final_flush_pending:
  assumes "aligned s"
  shows "collection (stores (final_flush s)) = pending_collection s"
    and "index (stores (final_flush s)) = pending_index s"
proof -
  have "mongo_batch s = []" if "vectors_batch s = []"
    using assms that by (simp add: aligned_def)
  then show "collection (stores (final_flush s)) = pending_collection s"
    and "index (stores (final_flush s)) = pending_index s"
    by (auto simp: final_flush_def flush_batches_simps pending_collection_def pending_index_def)
qed

lemma flush_pairs_append:
  "flush_pairs cs \<Longrightarrow> flush_pairs (cs @ [Index_upsert a, Bulk_write a])"
  by (induction cs rule: flush_pairs.induct) simp_all

lemma run_inv_initial:
  "run_inv st P \<lparr>stores = st, processed_ids = P, vectors_batch = [], mongo_batch = [], ingested = 0\<rparr>"
  by (simp add: run_inv_def aligned_def)

lemma calls_extend:
  assumes "take n cs = pre" "flush_pairs (drop n cs)" "n = length pre"
  shows "take n (cs @ [Index_upsert a, Bulk_write a]) = pre"
    and "flush_pairs (drop n (cs @ [Index_upsert a, Bulk_write a]))"
proof -
  have le: "n \<le> length cs" using assms(1,3) by (metis length_take min.cobounded1 min.commute)
  then show "take n (cs @ [Index_upsert a, Bulk_write a]) = pre" using assms(1) by simp
  show "flush_pairs (drop n (cs @ [Index_upsert a, Bulk_write a]))"
    using le assms(2) by (simp add: flush_pairs_append)
qed

lemma run_inv_threshold_flush:
  assumes "run_inv st0 P0 s"
  shows "run_inv st0 P0 (threshold_flush s)"
proof (cases "length (vectors_batch s) \<ge> BATCH_SIZE")
  case False
  then show ?thesis using assms by (simp add: threshold_flush_def)
next
  case True
  have al: "map fst (vectors_batch s) = map filter_id (mongo_batch s)"
    using assms by (simp add: run_inv_def aligned_def)
  have c: "calls (stores (threshold_flush s))
      = calls (stores s) @ [Index_upsert (map fst (vectors_batch s)),
                            Bulk_write (map fst (vectors_batch s))]"
    using True al by (simp add: threshold_flush_def flush_batches_simps)
  have "take (length (calls st0)) (calls (stores s)) = calls st0"
    "flush_pairs (drop (length (calls st0)) (calls (stores s)))"
    using assms by (simp_all add: run_inv_def)
  from calls_extend[OF this refl, of "map fst (vectors_batch s)"]
  show ?thesis
    using assms threshold_flush_aligned[of s]
    by (simp add: run_inv_def threshold_flush_pending c)
qed

lemma run_inv_stage:
  assumes "run_inv st0 P0 s" "fst v = filter_id u"
  shows "run_inv st0 P0 (stage s v u)"
proof -
  have "processed_ids s \<subseteq> P0 \<union> (doc_id ` set (pending_collection s) \<inter> fst ` set (pending_index s))"
    using assms(1) by (simp add: run_inv_def)
  then have "insert (fst v) (processed_ids s)
      \<subseteq> P0 \<union> (insert (filter_id u) (doc_id ` set (pending_collection s))
               \<inter> insert (fst v) (fst ` set (pending_index s)))"
    using assms(2) by auto
  then show ?thesis
    using assms stage_aligned[of s v u]
    by (simp add: run_inv_def stage_pending apply_update_one_ids upsert_vector_ids)
qed

lemma run_inv_classic_item:
  assumes "run_inv st0 P0 s"
  shows "run_inv st0 P0 (ingest_classic_item e s a)"
proof (cases "fetch_arxiv_metadata e a")
  case None
  then show ?thesis using assms by (simp add: ingest_classic_item_def)
next
  case (Some m)
  show ?thesis
  proof (cases "encode e (text_to_embed (meta_title m) (clean_summary (meta_summary m)))")
    case None
    then show ?thesis using assms Some by (simp add: ingest_classic_item_def)
  next
    case (Some emb)
    have "run_inv st0 P0 (threshold_flush (stage s (meta_id m, emb)
        (classic_mongo_op m (clean_summary (meta_summary m)) (classic_clock e (ingested s)))))"
      by (intro run_inv_threshold_flush run_inv_stage assms) (simp add: classic_mongo_op_def)
    then show ?thesis
      using \<open>fetch_arxiv_metadata e a = Some m\<close> Some by (simp add: ingest_classic_item_def)
  qed
qed

lemma run_inv_classic_loop:
  "run_inv st0 P0 s \<Longrightarrow> run_inv st0 P0 (foldl (ingest_classic_item e) s ids)"
  by (induction ids arbitrary: s) (simp_all add: run_inv_classic_item)

lemma run_inv_recent_week:
  "run_inv st0 P0 s \<Longrightarrow> run_inv st0 P0 (ingest_recent_week e s ps)"
proof (induction ps arbitrary: s)
  case Nil
  then show ?case by simp
next
  case (Cons p ps)
  show ?case
  proof (cases "last_segment (entry_id p) \<in> processed_ids s")
    case True
    then show ?thesis using Cons by simp
  next
    case False
    show ?thesis
    proof (cases "encode e (text_to_embed (paper_title p) (clean_summary (paper_summary p)))")
      case None
      then show ?thesis using False Cons.prems by simp
    next
      case (Some emb)
      let ?s1 = "threshold_flush (stage s (last_segment (entry_id p), emb)
          (recent_mongo_op p (last_segment (entry_id p)) (clean_summary (paper_summary p))
             (recent_clock e (ingested s))))"
      have s1: "run_inv st0 P0 ?s1"
        by (intro run_inv_threshold_flush run_inv_stage Cons.prems) (simp add: recent_mongo_op_def)
      then show ?thesis using False Some Cons.IH[OF s1] by (simp add: Let_def)
    qed
  qed
qed

lemma run_inv_recent_loop:
  "run_inv st0 P0 s \<Longrightarrow> run_inv st0 P0 (recent_loop e w s)"
proof (induction e w s rule: recent_loop.induct)
  case (1 e w s)
  show ?case
  proof (cases "ingested s < RECENT_ITEMS")
    case False
    then show ?thesis using 1 by (subst recent_loop.simps) simp
  next
    case True
    have s1: "run_inv st0 P0 (ingest_recent_week e s (arxiv_search e w))"
      using "1.prems" by (rule run_inv_recent_week)
    show ?thesis
    proof (cases "w + 1 > 156")
      case True
      then show ?thesis using \<open>ingested s < RECENT_ITEMS\<close> s1
        by (subst recent_loop.simps) (simp add: Let_def)
    next
      case False
      then show ?thesis using \<open>ingested s < RECENT_ITEMS\<close> "1.IH"[OF _ refl _ s1]
        by (subst recent_loop.simps) (simp add: Let_def)
    qed
  qed
qed

lemma run_inv_final_flush:
  assumes "run_inv st0 P0 s"
  shows "processed_ids (final_flush s)
           \<subseteq> P0 \<union> (doc_id ` set (collection (stores (final_flush s)))
                    \<inter> fst ` set (index (stores (final_flush s))))"
    and "take (length (calls st0)) (calls (stores (final_flush s))) = calls st0"
    and "flush_pairs (drop (length (calls st0)) (calls (stores (final_flush s))))"
proof -
  have al: "aligned s" using assms by (simp add: run_inv_def)
  have p: "processed_ids (final_flush s) = processed_ids s"
    by (simp add: final_flush_def flush_batches_simps)
  show "processed_ids (final_flush s)
           \<subseteq> P0 \<union> (doc_id ` set (collection (stores (final_flush s)))
                    \<inter> fst ` set (index (stores (final_flush s))))"
    using assms unfolding final_flush_pending[OF al] p by (simp add: run_inv_def)
  have c: "take (length (calls st0)) (calls (stores s)) = calls st0"
    "flush_pairs (drop (length (calls st0)) (calls (stores s)))"
    using assms by (simp_all add: run_inv_def)
  have eq: "map filter_id (mongo_batch s) = map fst (vectors_batch s)"
    using al by (simp add: aligned_def)
  show "take (length (calls st0)) (calls (stores (final_flush s))) = calls st0"
    using c calls_extend(1)[OF c refl, of "map fst (vectors_batch s)"]
    by (simp add: final_flush_def flush_batches_simps eq)
  show "flush_pairs (drop (length (calls st0)) (calls (stores (final_flush s))))"
    using c calls_extend(2)[OF c refl, of "map fst (vectors_batch s)"]
    by (simp add: final_flush_def flush_batches_simps eq)
qed

lemma classic_item_staged:
  assumes "fetch_arxiv_metadata e a = Some m"
    and "encode e (text_to_embed (meta_title m) (clean_summary (meta_summary m))) = Some emb"
  shows "ingest_classic_item e s a
     = threshold_flush (stage s (meta_id m, emb)
         (classic_mongo_op m (clean_summary (meta_summary m)) (classic_clock e (ingested s))))"
  using assms by (simp add: ingest_classic_item_def)

lemma threshold_flush_full:
  assumes "BATCH_SIZE \<le> length (vectors_batch s) + 1"
  shows "threshold_flush (stage s v u)
     = \<lparr>stores = bulk_write (index_upsert (stores s) (vectors_batch s @ [v])) (mongo_batch s @ [u]),
        processed_ids = insert (fst v) (processed_ids s),
        vectors_batch = [], mongo_batch = [], ingested = ingested s + 1\<rparr>"
  using assms by (simp add: threshold_flush_def stage_def flush_batches_def)

lemma final_flush_remainder:
  "vectors_batch s \<noteq> [] \<Longrightarrow>
     stores (final_flush s) = bulk_write (index_upsert (stores s) (vectors_batch s)) (mongo_batch s)"
  by (simp add: final_flush_def flush_batches_def)

lemma aligned_run_inv: "aligned s \<Longrightarrow> run_inv (stores s) UNIV s"
  by (simp add: run_inv_def)

lemma run_inv_aligned: "run_inv st0 P0 s \<Longrightarrow> aligned s"
  by (simp add: run_inv_def)

text \<open>
  Claim C9. Every step of either ingestion loop keeps the two staging buffers aligned
  (same ids, same order, hence same length). The calls that a run of either mode adds
  to those issued before are flush pairs: each upsert into the index is followed by a
  bulk write into the collection of exactly the same ids.
\<close>

theorem batches_stay_aligned:
  "(aligned s \<longrightarrow>
      aligned (ingest_classic_item e s a)
      \<and> aligned (ingest_recent_week e s ps)
      \<and> aligned (recent_loop e w s))
   \<and> take (length (calls st)) (calls (fst (ingest_classic_papers e st P limit))) = calls st
   \<and> flush_pairs (drop (length (calls st)) (calls (fst (ingest_classic_papers e st P limit))))
   \<and> take (length (calls st)) (calls (fst (ingest_recent_papers e st P))) = calls st
   \<and> flush_pairs (drop (length (calls st)) (calls (fst (ingest_recent_papers e st P))))"
proof -
  have step: "aligned (ingest_classic_item e s a) \<and> aligned (ingest_recent_week e s ps)
      \<and> aligned (recent_loop e w s)" if "aligned s"
    using run_inv_aligned[OF run_inv_classic_item[OF aligned_run_inv[OF that]]]
      run_inv_aligned[OF run_inv_recent_week[OF aligned_run_inv[OF that]]]
      run_inv_aligned[OF run_inv_recent_loop[OF aligned_run_inv[OF that]]]
    by blast
  let ?new = "filter (\<lambda>cid. cid \<notin> P)
      (list_order e (combined_ids (list_order e) (http_get e) (scholar_api e) limit))"
  let ?s0 = "\<lparr>stores = st, processed_ids = P, vectors_batch = [], mongo_batch = [], ingested = 0\<rparr>"
  have c: "run_inv st P (foldl (ingest_classic_item e) ?s0 ?new)"
    by (intro run_inv_classic_loop run_inv_initial)
  have classic: "take (length (calls st)) (calls (fst (ingest_classic_papers e st P limit))) = calls st
     \<and> flush_pairs (drop (length (calls st)) (calls (fst (ingest_classic_papers e st P limit))))"
    using run_inv_final_flush(2,3)[OF c]
    by (cases "?new = []") (simp_all add: ingest_classic_papers_def Let_def)
  have r: "run_inv st P (recent_loop e 0 ?s0)"
    by (intro run_inv_recent_loop run_inv_initial)
  have recent: "take (length (calls st)) (calls (fst (ingest_recent_papers e st P))) = calls st
     \<and> flush_pairs (drop (length (calls st)) (calls (fst (ingest_recent_papers e st P))))"
    using run_inv_final_flush(2,3)[OF r] by (simp add: ingest_recent_papers_def Let_def)
  from step classic recent show ?thesis by blast
qed

lemma sample_last_segment: "last_segment (entry_id sample_paper) = ''2401.00001v1''"
  by (simp add: sample_paper_def last_segment_def)

lemma sample_fetch: "fetch_arxiv_metadata sample_env ''2401.00001'' = Some sample_meta"
  by (simp add: fetch_arxiv_metadata_def sample_env_def sample_meta_def sample_last_segment)
     (simp add: sample_paper_def)

lemma sample_encode: "encode sample_env t = Some [1]"
  by (simp add: sample_env_def)

lemma nearly_full_length: "length (vectors_batch nearly_full) = 199"
  by (simp add: nearly_full_def)

lemma nearly_full_aligned: "aligned nearly_full"
  by (simp add: aligned_def nearly_full_def sample_op_def)

theorem batches_stay_aligned_witness:
  "aligned nearly_full
   \<and> aligned (ingest_classic_item sample_env nearly_full ''2401.00001'')
   \<and> aligned (ingest_recent_week sample_env nearly_full [sample_paper])
   \<and> aligned (recent_loop sample_env 0 nearly_full)"
  using batches_stay_aligned[of nearly_full sample_env "''2401.00001''" "[sample_paper]" 0]
    nearly_full_aligned
  by blast

lemma set_fields_same_id:
  "doc_id (d::document) = filter_id u \<Longrightarrow> set_fields u d = inserted_document u"
  by (simp add: set_fields_def inserted_document_def)

lemma doc_id_set_fields: "doc_id (set_fields u d) = doc_id d"
  by (simp add: set_fields_def)

lemma apply_update_one_map_ids:
  "map doc_id (apply_update_one c u)
     = (if filter_id u \<in> doc_id ` set c then map doc_id c else map doc_id c @ [filter_id u])"
  by (induction c) (auto simp: doc_id_set_fields inserted_document_def set_fields_def)

lemma apply_update_one_distinct:
  "distinct (map doc_id c) \<Longrightarrow> distinct (map doc_id (apply_update_one c u))"
  by (simp add: apply_update_one_map_ids)

lemma foldl_apply_update_one_distinct:
  "distinct (map doc_id c) \<Longrightarrow> distinct (map doc_id (foldl apply_update_one c ops))"
  by (induction ops arbitrary: c) (simp_all add: apply_update_one_distinct)

lemma apply_update_one_target:
  "distinct (map doc_id c) \<Longrightarrow>
     filter (\<lambda>d. doc_id d = filter_id u) (apply_update_one c u) = [inserted_document u]"
proof (induction c)
  case Nil
  then show ?case by (simp add: inserted_document_def set_fields_def)
next
  case (Cons d c)
  show ?case
  proof (cases "doc_id d = filter_id u")
    case True
    then have "filter_id u \<notin> doc_id ` set c" using Cons.prems by simp
    then have "filter (\<lambda>d. doc_id d = filter_id u) c = []"
      unfolding filter_empty_conv by (metis imageI)
    then show ?thesis using True by (simp add: set_fields_same_id doc_id_set_fields)
       (simp add: inserted_document_def set_fields_def)
  next
    case False
    then show ?thesis using Cons by simp
  qed
qed

lemma bulk_write_last:
  assumes "distinct (map doc_id (collection st))"
  shows "filter (\<lambda>d. doc_id d = filter_id u) (collection (bulk_write st (ops @ [u])))
           = [inserted_document u]"
    and "distinct (map doc_id (collection (bulk_write st (ops @ [u]))))"
proof -
  have d: "distinct (map doc_id (foldl apply_update_one (collection st) ops))"
    using assms by (rule foldl_apply_update_one_distinct)
  show "filter (\<lambda>d. doc_id d = filter_id u) (collection (bulk_write st (ops @ [u])))
           = [inserted_document u]"
    using apply_update_one_target[OF d] by (simp add: bulk_write_def)
  show "distinct (map doc_id (collection (bulk_write st (ops @ [u]))))"
    using apply_update_one_distinct[OF d] by (simp add: bulk_write_def)
qed

lemma recent_loop_idle:
  "\<forall>v \<ge> w. arxiv_search e v = [] \<Longrightarrow> recent_loop e w s = s"
proof (induction e w s rule: recent_loop.induct)
  case (1 e w s)
  have here: "arxiv_search e w = []" using "1.prems" by simp
  show ?case
  proof (cases "ingested s < RECENT_ITEMS \<and> \<not> w + 1 > 156")
    case True
    have "recent_loop e (w + 1) s = s"
      using True "1.prems" by (intro "1.IH"[where x = s]) (auto simp: here)
    then show ?thesis using True by (subst recent_loop.simps) (simp add: here)
  next
    case False
    then show ?thesis by (subst recent_loop.simps) (auto simp: here)
  qed
qed

lemma recent_loop_first_week:
  assumes "ingested s < RECENT_ITEMS" "\<forall>v \<ge> 1. arxiv_search e v = []"
  shows "recent_loop e 0 s = ingest_recent_week e s (arxiv_search e 0)"
  using assms recent_loop_idle[of 1 e "ingest_recent_week e s (arxiv_search e 0)"]
  by (subst recent_loop.simps) simp

lemma sample_search: "arxiv_search sample_env 0 = [sample_paper]"
  "\<forall>v \<ge> 1. arxiv_search sample_env v = []"
  "arxiv_search quiet_env 0 = [sample_paper]"
  "\<forall>v \<ge> 1. arxiv_search quiet_env v = []"
  by (simp_all add: sample_env_def quiet_env_def)

lemma quiet_candidates:
  "combined_ids (list_order quiet_env) (http_get quiet_env) (scholar_api quiet_env) n = []"
proof -
  have "scholar_loop (\<lambda>offset k. Json []) m 0 [] [] = ([], if 0 < m then [Request 0] else [])" for m
    by (subst scholar_loop.simps) (simp add: fetch_page.simps max_retries_def)
  then show ?thesis
    by (simp add: combined_ids_def quiet_env_def sample_env_def fetch_classic_ids_from_github_def
        awesome_lists_def fetch_classic_ids_from_semantic_scholar_def set_union_def to_set_def
        set_update_def split: if_splits)
qed

lemma sample_candidates:
  "combined_ids (list_order sample_env) (http_get sample_env) (scholar_api sample_env) CLASSIC_ITEMS
     = [''2401.00001'']"
proof -
  have page0: "fetch_page (scholar_api sample_env) 0 0 [] = ([Some ''2401.00001''], [Request 0])"
    by (simp add: fetch_page.simps max_retries_def sample_env_def)
  have page1: "fetch_page (scholar_api sample_env) 100 0 tr = ([], tr @ [Request 100])" for tr
    by (simp add: fetch_page.simps max_retries_def sample_env_def)
  have inner: "scholar_loop (scholar_api sample_env) 1500 100 [''2401.00001''] tr
      = ([''2401.00001''], tr @ [Request 100])" for tr
    by (subst scholar_loop.simps) (simp add: page1)
  have "scholar_loop (scholar_api sample_env) 1500 0 [] []
      = ([''2401.00001''], [Request 0, Sleep 2, Request 100])"
    by (subst scholar_loop.simps) (simp add: page0 inner scholar_limit_def)
  moreover have "CLASSIC_ITEMS div 2 = 1500" by (simp add: CLASSIC_ITEMS_def)
  ultimately show ?thesis
    by (simp add: combined_ids_def fetch_classic_ids_from_github_def awesome_lists_def
        fetch_classic_ids_from_semantic_scholar_def set_union_def to_set_def set_update_def
        set_add_def)
       (simp add: sample_env_def set_add_def)
qed

lemma cleanup_small: "length (collection st) \<le> 30000 \<Longrightarrow> cleanup_old_items st MAX_ITEMS = st"
  by (simp add: cleanup_old_items_def MAX_ITEMS_def)

lemma quiet_encode: "encode quiet_env t = Some [1]" "recent_clock quiet_env k = 200 + k"
  by (simp_all add: quiet_env_def sample_env_def)

lemma first_night_eval:
  "first_night = \<lparr>collection = [recent_doc], index = [(''2401.00001v1'', [1])],
     calls = [Index_upsert [''2401.00001v1''], Bulk_write [''2401.00001v1'']]\<rparr>"
proof -
  let ?s0 = "\<lparr>stores = empty_store, processed_ids = {}, vectors_batch = [], mongo_batch = [],
     ingested = 0\<rparr>"
  have classic: "ingest_classic_papers quiet_env empty_store {} CLASSIC_ITEMS = (empty_store, {})"
    by (simp add: ingest_classic_papers_def quiet_candidates)
       (simp add: quiet_env_def sample_env_def)
  have week: "ingest_recent_week quiet_env ?s0 [sample_paper]
      = \<lparr>stores = empty_store, processed_ids = {''2401.00001v1''},
         vectors_batch = [(''2401.00001v1'', [1])],
         mongo_batch = [recent_mongo_op sample_paper ''2401.00001v1''
            (clean_summary (paper_summary sample_paper)) 200],
         ingested = 1\<rparr>"
    by (simp add: sample_last_segment quiet_encode stage_def threshold_flush_def BATCH_SIZE_def
        RECENT_ITEMS_def)
  have loop: "recent_loop quiet_env 0 ?s0 = ingest_recent_week quiet_env ?s0 [sample_paper]"
    using recent_loop_first_week[of ?s0 quiet_env] sample_search(3,4)
    by (simp add: RECENT_ITEMS_def)
  have recent: "fst (ingest_recent_papers quiet_env empty_store {})
      = \<lparr>collection = [recent_doc], index = [(''2401.00001v1'', [1])],
         calls = [Index_upsert [''2401.00001v1''], Bulk_write [''2401.00001v1'']]\<rparr>"
    by (simp only: ingest_recent_papers_def loop week Let_def)
       (simp add: final_flush_def flush_batches_def bulk_write_def index_upsert_def empty_store_def recent_mongo_op_def
        inserted_document_def set_fields_def recent_doc_def sample_paper_def clean_summary_def)
  have "cleanup_old_items empty_store MAX_ITEMS = empty_store"
    by (rule cleanup_small) (simp add: empty_store_def)
  moreover have "collection empty_store = []" by (simp add: empty_store_def)
  ultimately have "first_night
      = cleanup_old_items (fst (ingest_recent_papers quiet_env empty_store {})) MAX_ITEMS"
    by (simp add: first_night_def run_ingestion_def classic split: prod.splits)
  then show ?thesis unfolding recent by (simp add: cleanup_small)
qed



lemma ingest_classic_papers_unfold:
  "ingest_classic_papers e st P limit =
     (if new_classic_ids e P limit = [] then (st, P)
      else (stores (final_flush (foldl (ingest_classic_item e) (initial_state st P)
                                   (new_classic_ids e P limit))),
            processed_ids (final_flush (foldl (ingest_classic_item e) (initial_state st P)
                                   (new_classic_ids e P limit)))))"
  by (simp add: ingest_classic_papers_def new_classic_ids_def initial_state_def Let_def)

lemma initial_state_simps:
  "pending_collection (initial_state st P) = collection st"
  "pending_index (initial_state st P) = index st"
  "processed_ids (initial_state st P) = P"
  "ingested (initial_state st P) = 0"
  "stores (initial_state st P) = st"
  by (simp_all add: initial_state_def pending_collection_def pending_index_def)

lemma run_inv_initial_state: "run_inv st P (initial_state st P)"
  unfolding initial_state_def by (rule run_inv_initial)

lemma final_flush_processed: "processed_ids (final_flush s) = processed_ids s"
  by (simp add: final_flush_def flush_batches_simps)

lemma classic_run_result:
  "collection (fst (ingest_classic_papers e st P limit))
     = pending_collection (foldl (ingest_classic_item e) (initial_state st P) (new_classic_ids e P limit))"
  "index (fst (ingest_classic_papers e st P limit))
     = pending_index (foldl (ingest_classic_item e) (initial_state st P) (new_classic_ids e P limit))"
  "snd (ingest_classic_papers e st P limit)
     = processed_ids (foldl (ingest_classic_item e) (initial_state st P) (new_classic_ids e P limit))"
proof -
  let ?L = "foldl (ingest_classic_item e) (initial_state st P) (new_classic_ids e P limit)"
  have "run_inv st P ?L" by (intro run_inv_classic_loop run_inv_initial_state)
  then have al: "aligned ?L" by (rule run_inv_aligned)
  show "collection (fst (ingest_classic_papers e st P limit)) = pending_collection ?L"
    using final_flush_pending(1)[OF al]
    by (cases "new_classic_ids e P limit = []")
       (simp_all add: ingest_classic_papers_unfold initial_state_simps)
  show "index (fst (ingest_classic_papers e st P limit)) = pending_index ?L"
    using final_flush_pending(2)[OF al]
    by (cases "new_classic_ids e P limit = []")
       (simp_all add: ingest_classic_papers_unfold initial_state_simps)
  show "snd (ingest_classic_papers e st P limit) = processed_ids ?L"
    by (cases "new_classic_ids e P limit = []")
       (simp_all add: ingest_classic_papers_unfold initial_state_simps final_flush_processed)
qed

lemma recent_run_result:
  "collection (fst (ingest_recent_papers e st P))
     = pending_collection (recent_loop e 0 (initial_state st P))"
  "index (fst (ingest_recent_papers e st P))
     = pending_index (recent_loop e 0 (initial_state st P))"
  "snd (ingest_recent_papers e st P) = processed_ids (recent_loop e 0 (initial_state st P))"
proof -
  let ?L = "recent_loop e 0 (initial_state st P)"
  have "run_inv st P ?L" by (intro run_inv_recent_loop run_inv_initial_state)
  then have al: "aligned ?L" by (rule run_inv_aligned)
  show "collection (fst (ingest_recent_papers e st P)) = pending_collection ?L"
    using final_flush_pending(1)[OF al]
    by (simp add: ingest_recent_papers_def Let_def initial_state_def)
  show "index (fst (ingest_recent_papers e st P)) = pending_index ?L"
    using final_flush_pending(2)[OF al]
    by (simp add: ingest_recent_papers_def Let_def initial_state_def)
  show "snd (ingest_recent_papers e st P) = processed_ids ?L"
    by (simp add: ingest_recent_papers_def Let_def initial_state_def final_flush_processed)
qed

lemma apply_update_one_other:
  "filter_id u \<noteq> X \<Longrightarrow>
     filter (\<lambda>d. doc_id d = X) (apply_update_one c u) = filter (\<lambda>d. doc_id d = X) c"
  by (induction c) (auto simp: doc_id_set_fields inserted_document_def set_fields_def)

text \<open>One staging, whether or not the threshold flush follows it.\<close>

lemma staged_pending:
  "pending_collection (threshold_flush (stage s v u)) = apply_update_one (pending_collection s) u"
  "pending_index (threshold_flush (stage s v u)) = upsert_vector (pending_index s) v"
  "processed_ids (threshold_flush (stage s v u)) = insert (fst v) (processed_ids s)"
  "ingested (threshold_flush (stage s v u)) = ingested s + 1"
  by (simp_all add: threshold_flush_pending stage_pending)

lemma classic_item_cases:
  obtains (skipped) "ingest_classic_item e s a = s"
      and "\<And>m. fetch_arxiv_metadata e a = Some m \<Longrightarrow>
             encode e (text_to_embed (meta_title m) (clean_summary (meta_summary m))) = None"
  | (staged) m emb where "fetch_arxiv_metadata e a = Some m"
      and "encode e (text_to_embed (meta_title m) (clean_summary (meta_summary m))) = Some emb"
      and "ingest_classic_item e s a
             = threshold_flush (stage s (meta_id m, emb)
                 (classic_mongo_op m (clean_summary (meta_summary m)) (classic_clock e (ingested s))))"
proof (cases "fetch_arxiv_metadata e a")
  case None
  then show ?thesis by (intro skipped) (simp_all add: ingest_classic_item_def)
next
  case (Some m)
  show ?thesis
  proof (cases "encode e (text_to_embed (meta_title m) (clean_summary (meta_summary m)))")
    case None
    then show ?thesis using Some by (intro skipped) (simp_all add: ingest_classic_item_def)
  next
    case (Some emb)
    then show ?thesis using \<open>fetch_arxiv_metadata e a = Some m\<close>
      by (intro staged[of m emb]) (simp_all add: ingest_classic_item_def)
  qed
qed

lemma classic_item_distinct:
  "distinct (map doc_id (pending_collection s)) \<Longrightarrow>
     distinct (map doc_id (pending_collection (ingest_classic_item e s a)))"
  by (cases rule: classic_item_cases[where e = e and s = s and a = a])
     (simp_all add: staged_pending apply_update_one_distinct)

lemma classic_loop_distinct:
  "distinct (map doc_id (pending_collection s)) \<Longrightarrow>
     distinct (map doc_id (pending_collection (foldl (ingest_classic_item e) s ids)))"
  by (induction ids arbitrary: s) (simp_all add: classic_item_distinct)

lemma classic_item_target:
  assumes "fetch_arxiv_metadata e a = Some m"
    and "encode e (text_to_embed (meta_title m) (clean_summary (meta_summary m))) = Some emb"
    and "distinct (map doc_id (pending_collection s))"
  shows "filter (\<lambda>d. doc_id d = meta_id m) (pending_collection (ingest_classic_item e s a))
           = [inserted_document (classic_mongo_op m (clean_summary (meta_summary m))
                                   (classic_clock e (ingested s)))]"
    and "meta_id m \<in> fst ` set (pending_index (ingest_classic_item e s a))"
proof -
  let ?u = "classic_mongo_op m (clean_summary (meta_summary m)) (classic_clock e (ingested s))"
  have step: "ingest_classic_item e s a = threshold_flush (stage s (meta_id m, emb) ?u)"
    using assms(1,2) by (simp add: ingest_classic_item_def)
  have id: "filter_id ?u = meta_id m" by (simp add: classic_mongo_op_def)
  show "filter (\<lambda>d. doc_id d = meta_id m) (pending_collection (ingest_classic_item e s a))
           = [inserted_document ?u]"
    using apply_update_one_target[OF assms(3), of ?u] by (simp add: step staged_pending id)
  show "meta_id m \<in> fst ` set (pending_index (ingest_classic_item e s a))"
    by (simp add: step staged_pending upsert_vector_ids)
qed



lemma index_ids_mono_classic_item:
  "fst ` set (pending_index s) \<subseteq> fst ` set (pending_index (ingest_classic_item e s a))"
  by (cases rule: classic_item_cases[where e = e and s = s and a = a]) (auto simp: staged_pending upsert_vector_ids)

lemma index_ids_mono_classic_loop:
  "fst ` set (pending_index s) \<subseteq> fst ` set (pending_index (foldl (ingest_classic_item e) s ids))"
proof (induction ids arbitrary: s)
  case Nil
  then show ?case by simp
next
  case (Cons b ids)
  from index_ids_mono_classic_item[of s e b] Cons.IH[of "ingest_classic_item e s b"]
  show ?case by auto
qed

text \<open>A document of type classic for the id, once pending, stays one through the classic loop.\<close>

lemma classic_item_keeps:
  assumes "distinct (map doc_id (pending_collection s))"
    and "written_as ''classic'' (classic_clock e) X (pending_stores s)"
  shows "written_as ''classic'' (classic_clock e) X (pending_stores (ingest_classic_item e s a))"
proof (cases "\<exists>m. fetch_arxiv_metadata e a = Some m \<and> meta_id m = X
    \<and> encode e (text_to_embed (meta_title m) (clean_summary (meta_summary m))) \<noteq> None")
  case True
  then obtain m emb where m: "fetch_arxiv_metadata e a = Some m" "meta_id m = X"
    "encode e (text_to_embed (meta_title m) (clean_summary (meta_summary m))) = Some emb"
    by auto
  from classic_item_target[OF m(1,3) assms(1)] show ?thesis
    unfolding written_as_def pending_stores_def m(2)
    by (auto simp: inserted_document_def set_fields_def classic_mongo_op_def)
next
  case False
  have coll: "filter (\<lambda>d. doc_id d = X) (pending_collection (ingest_classic_item e s a))
      = filter (\<lambda>d. doc_id d = X) (pending_collection s)"
  proof (cases rule: classic_item_cases[where e = e and s = s and a = a])
    case skipped
    then show ?thesis by simp
  next
    case (staged m emb)
    then have "meta_id m \<noteq> X" using False by auto
    then have "filter_id (classic_mongo_op m (clean_summary (meta_summary m))
        (classic_clock e (ingested s))) \<noteq> X"
      by (simp add: classic_mongo_op_def)
    then show ?thesis by (simp add: staged(3) staged_pending apply_update_one_other)
  qed
  show ?thesis
    using assms(2) index_ids_mono_classic_item[of s e a]
    unfolding written_as_def pending_stores_def by (auto simp: coll)
qed

lemma classic_loop_keeps:
  "distinct (map doc_id (pending_collection s)) \<Longrightarrow>
   written_as ''classic'' (classic_clock e) X (pending_stores s) \<Longrightarrow>
     written_as ''classic'' (classic_clock e) X
       (pending_stores (foldl (ingest_classic_item e) s ids))"
proof (induction ids arbitrary: s)
  case Nil
  then show ?case by simp
next
  case (Cons b ids)
  show ?case
    using Cons.IH[OF classic_item_distinct[OF Cons.prems(1)]
        classic_item_keeps[OF Cons.prems(1,2)]]
    by simp
qed

lemma classic_loop_writes:
  assumes "distinct (map doc_id (pending_collection s))" and "a \<in> set ids"
    and "fetch_arxiv_metadata e a = Some m"
    and "encode e (text_to_embed (meta_title m) (clean_summary (meta_summary m))) = Some emb"
  shows "written_as ''classic'' (classic_clock e) (meta_id m)
           (pending_stores (foldl (ingest_classic_item e) s ids))"
proof -
  from assms(2) obtain pre post where ids: "ids = pre @ a # post"
    by (auto simp: in_set_conv_decomp)
  let ?s1 = "foldl (ingest_classic_item e) s pre"
  have d1: "distinct (map doc_id (pending_collection ?s1))"
    using assms(1) by (rule classic_loop_distinct)
  have w: "written_as ''classic'' (classic_clock e) (meta_id m)
      (pending_stores (ingest_classic_item e ?s1 a))"
    using classic_item_target[OF assms(3,4) d1]
    unfolding written_as_def pending_stores_def
    by (auto simp: inserted_document_def set_fields_def classic_mongo_op_def)
  show ?thesis
    using classic_loop_keeps[OF classic_item_distinct[OF d1] w, of post]
    by (simp add: ids)
qed

lemma recent_week_Cons:
  "ingest_recent_week e s (p # ps) =
     (if recent_id p \<in> processed_ids s then ingest_recent_week e s ps
      else (case encode e (recent_text p) of
              None \<Rightarrow> s
            | Some emb \<Rightarrow>
                if RECENT_ITEMS \<le> ingested s + 1 then staged_recent e s p emb
                else ingest_recent_week e (staged_recent e s p emb) ps))"
  by (simp add: recent_id_def recent_text_def staged_recent_def Let_def staged_pending
      split: option.splits)

lemma staged_recent_simps:
  "pending_collection (staged_recent e s p emb)
     = apply_update_one (pending_collection s)
         (recent_mongo_op p (recent_id p) (clean_summary (paper_summary p))
            (recent_clock e (ingested s)))"
  "pending_index (staged_recent e s p emb) = upsert_vector (pending_index s) (recent_id p, emb)"
  "processed_ids (staged_recent e s p emb) = insert (recent_id p) (processed_ids s)"
  "ingested (staged_recent e s p emb) = ingested s + 1"
  by (simp_all add: staged_recent_def staged_pending)

text \<open>A property kept by every staging of the recent mode is kept by a week and by the loop.\<close>

lemma recent_week_invariant:
  assumes "Inv s"
    and step: "\<And>s p emb. Inv s \<Longrightarrow> recent_id p \<notin> processed_ids s \<Longrightarrow>
                 encode e (recent_text p) = Some emb \<Longrightarrow> Inv (staged_recent e s p emb)"
  shows "Inv (ingest_recent_week e s ps)"
  using assms(1)
proof (induction ps arbitrary: s)
  case Nil
  then show ?case by simp
next
  case (Cons p ps)
  show ?case
  proof (cases "recent_id p \<in> processed_ids s")
    case True
    then show ?thesis using Cons by (simp only: recent_week_Cons if_True)
  next
    case False
    show ?thesis
    proof (cases "encode e (recent_text p)")
      case None
      then show ?thesis using False Cons.prems by (simp only: recent_week_Cons) simp
    next
      case (Some emb)
      have s1: "Inv (staged_recent e s p emb)" using Cons.prems False Some by (rule step)
      show ?thesis using False Some s1 Cons.IH[OF s1] by (simp only: recent_week_Cons) simp
    qed
  qed
qed

lemma recent_loop_invariant:
  assumes "Inv s"
    and "\<And>s p emb. Inv s \<Longrightarrow> recent_id p \<notin> processed_ids s \<Longrightarrow>
                 encode e (recent_text p) = Some emb \<Longrightarrow> Inv (staged_recent e s p emb)"
  shows "Inv (recent_loop e w s)"
  using assms
proof (induction e w s rule: recent_loop.induct)
  case (1 e w s)
  note step = "1.prems"(2)
  have week: "Inv (ingest_recent_week e s (arxiv_search e w))"
    using "1.prems"(1) step by (rule recent_week_invariant)
  show ?case
  proof (cases "ingested s < RECENT_ITEMS")
    case False
    then show ?thesis using "1.prems"(1) by (subst recent_loop.simps) simp
  next
    case True
    show ?thesis
    proof (cases "w + 1 > 156")
      case True
      then show ?thesis using \<open>ingested s < RECENT_ITEMS\<close> week
        by (subst recent_loop.simps) (simp add: Let_def)
    next
      case False
      have "Inv (recent_loop e (w + 1) (ingest_recent_week e s (arxiv_search e w)))"
        using \<open>ingested s < RECENT_ITEMS\<close> refl False week step by (rule "1.IH")
      then show ?thesis using \<open>ingested s < RECENT_ITEMS\<close> False
        by (subst recent_loop.simps) (simp add: Let_def)
    qed
  qed
qed



lemma recent_loop_written:
  assumes "distinct (map doc_id (pending_collection s))"
    and "\<forall>X \<in> processed_ids s - P. written_as ''recent'' (recent_clock e) X (pending_stores s)"
  shows "\<forall>X \<in> processed_ids (recent_loop e w s) - P.
           written_as ''recent'' (recent_clock e) X (pending_stores (recent_loop e w s))"
proof -
  let ?Inv = "\<lambda>t. distinct (map doc_id (pending_collection t))
      \<and> (\<forall>X \<in> processed_ids t - P. written_as ''recent'' (recent_clock e) X (pending_stores t))"
  have "?Inv (recent_loop e w s)"
  proof (rule recent_loop_invariant[where Inv = ?Inv])
    show "?Inv s" using assms by simp
  next
    fix t p emb
    assume inv: "?Inv t" and new: "recent_id p \<notin> processed_ids t"
    let ?u = "recent_mongo_op p (recent_id p) (clean_summary (paper_summary p))
        (recent_clock e (ingested t))"
    let ?t1 = "staged_recent e t p emb"
    have id: "filter_id ?u = recent_id p" by (simp add: recent_mongo_op_def)
    have d: "distinct (map doc_id (pending_collection t))" using inv by simp
    have new_doc: "filter (\<lambda>d. doc_id d = recent_id p) (pending_collection ?t1)
        = [inserted_document ?u]"
      using apply_update_one_target[OF d, of ?u] by (simp add: staged_recent_simps id)
    have w_new: "written_as ''recent'' (recent_clock e) (recent_id p) (pending_stores ?t1)"
      unfolding written_as_def pending_stores_def
      using new_doc
      by (auto simp: staged_recent_simps upsert_vector_ids inserted_document_def set_fields_def
          recent_mongo_op_def)
    have w_old: "written_as ''recent'' (recent_clock e) X (pending_stores ?t1)"
      if X: "X \<in> processed_ids t - P" for X
    proof -
      have ne: "filter_id ?u \<noteq> X" using X new by (auto simp: id)
      have "written_as ''recent'' (recent_clock e) X (pending_stores t)" using inv X by blast
      then show ?thesis
        unfolding written_as_def pending_stores_def
        by (auto simp: staged_recent_simps apply_update_one_other[OF ne] upsert_vector_ids)
    qed
    show "?Inv ?t1"
      using d w_new w_old by (auto simp: staged_recent_simps apply_update_one_distinct)
  qed
  then show ?thesis by simp
qed

lemma recent_loop_processed_mono: "processed_ids s \<subseteq> processed_ids (recent_loop e w s)"
  by (rule recent_loop_invariant[where Inv = "\<lambda>t. processed_ids s \<subseteq> processed_ids t"])
     (auto simp: staged_recent_simps)

lemma recent_week_processed_mono: "processed_ids s \<subseteq> processed_ids (ingest_recent_week e s ps)"
  by (rule recent_week_invariant[where Inv = "\<lambda>t. processed_ids s \<subseteq> processed_ids t"])
     (auto simp: staged_recent_simps)

text \<open>Without failure of the encoder and below the target, a week processes all its papers.\<close>

lemma recent_week_complete:
  assumes "\<forall>p \<in> set ps. encode e (recent_text p) \<noteq> None"
    and "ingested s + length ps < RECENT_ITEMS"
  shows "recent_id ` set ps \<subseteq> processed_ids (ingest_recent_week e s ps)
       \<and> ingested (ingest_recent_week e s ps) \<le> ingested s + length ps"
  using assms
proof (induction ps arbitrary: s)
  case Nil
  then show ?case by simp
next
  case (Cons p ps)
  have enc: "\<forall>p \<in> set ps. encode e (recent_text p) \<noteq> None" using Cons.prems(1) by simp
  show ?case
  proof (cases "recent_id p \<in> processed_ids s")
    case True
    have "ingested s + length ps < RECENT_ITEMS" using Cons.prems(2) by simp
    from Cons.IH[OF enc this] True recent_week_processed_mono[of s e ps]
    show ?thesis by (simp only: recent_week_Cons if_True) auto
  next
    case False
    obtain emb where emb: "encode e (recent_text p) = Some emb"
      using Cons.prems(1) by auto
    let ?s1 = "staged_recent e s p emb"
    have "ingested ?s1 + length ps < RECENT_ITEMS"
      using Cons.prems(2) by (simp add: staged_recent_simps)
    from Cons.IH[OF enc this] recent_week_processed_mono[of ?s1 e ps]
    have "recent_id ` set (p # ps) \<subseteq> processed_ids (ingest_recent_week e ?s1 ps)"
      and "ingested (ingest_recent_week e ?s1 ps) \<le> ingested s + length (p # ps)"
      by (auto simp: staged_recent_simps)
    moreover have "\<not> RECENT_ITEMS \<le> ingested s + 1" using Cons.prems(2) by simp
    ultimately show ?thesis using False emb by (simp only: recent_week_Cons) simp
  qed
qed

lemma recent_loop_complete:
  assumes "\<forall>v. w \<le> v \<and> v \<le> 156 \<longrightarrow> (\<forall>p \<in> set (arxiv_search e v). encode e (recent_text p) \<noteq> None)"
    and "ingested s + (\<Sum>v = w..<157. length (arxiv_search e v)) < RECENT_ITEMS"
  shows "\<forall>v. w \<le> v \<and> v \<le> 156 \<longrightarrow> recent_id ` set (arxiv_search e v) \<subseteq> processed_ids (recent_loop e w s)"
  using assms
proof (induction e w s rule: recent_loop.induct)
  case (1 e w s)
  show ?case
  proof (cases "w \<le> 156")
    case False
    then show ?thesis by auto
  next
    case True
    then have split: "(\<Sum>v = w..<157. length (arxiv_search e v))
        = length (arxiv_search e w) + (\<Sum>v = Suc w..<157. length (arxiv_search e v))"
      by (simp add: sum.atLeast_Suc_lessThan)
    let ?s1 = "ingest_recent_week e s (arxiv_search e w)"
    have lt: "ingested s < RECENT_ITEMS" using "1.prems"(2) by simp
    have enc: "\<forall>p \<in> set (arxiv_search e w). encode e (recent_text p) \<noteq> None"
      using "1.prems"(1) True by blast
    have here: "ingested s + length (arxiv_search e w) < RECENT_ITEMS"
      using "1.prems"(2) split by simp
    note week = recent_week_complete[OF enc here]
    show ?thesis
    proof (cases "w + 1 > 156")
      case True
      then have "w = 156" using \<open>w \<le> 156\<close> by simp
      then show ?thesis using week lt True
        by (subst recent_loop.simps) (auto simp: Let_def)
    next
      case False
      have rest: "ingested ?s1 + (\<Sum>v = w + 1..<157. length (arxiv_search e v)) < RECENT_ITEMS"
        using week "1.prems"(2) split by simp
      have enc': "\<forall>v. w + 1 \<le> v \<and> v \<le> 156 \<longrightarrow>
          (\<forall>p \<in> set (arxiv_search e v). encode e (recent_text p) \<noteq> None)"
      proof (intro allI impI)
        fix v assume "w + 1 \<le> v \<and> v \<le> 156"
        then have "w \<le> v \<and> v \<le> 156" by simp
        with "1.prems"(1) show "\<forall>p \<in> set (arxiv_search e v). encode e (recent_text p) \<noteq> None"
          by blast
      qed
      note ih = "1.IH"[OF lt refl False enc' rest]
      have loop: "recent_loop e w s = recent_loop e (w + 1) ?s1"
        using lt False by (subst recent_loop.simps) (simp add: Let_def)
      show ?thesis
      proof (intro allI impI)
        fix v assume v: "w \<le> v \<and> v \<le> 156"
        show "recent_id ` set (arxiv_search e v) \<subseteq> processed_ids (recent_loop e w s)"
        proof (cases "v = w")
          case True
          then show ?thesis
            using week recent_loop_processed_mono[of ?s1 e "w + 1"] unfolding loop by blast
        next
          case False
          then have "w + 1 \<le> v \<and> v \<le> 156" using v by simp
          then show ?thesis using ih unfolding loop by blast
        qed
      qed
    qed
  qed
qed

lemma written_as_cong:
  "collection st = collection st' \<Longrightarrow> index st = index st' \<Longrightarrow>
     written_as ty clock X st = written_as ty clock X st'"
  by (simp add: written_as_def)

lemma classic_run_pending:
  "written_as ty clock X (fst (ingest_classic_papers e st P limit))
     = written_as ty clock X
         (pending_stores (foldl (ingest_classic_item e) (initial_state st P)
                            (new_classic_ids e P limit)))"
  by (rule written_as_cong) (simp_all add: classic_run_result pending_stores_def)

lemma recent_run_pending:
  "written_as ty clock X (fst (ingest_recent_papers e st P))
     = written_as ty clock X (pending_stores (recent_loop e 0 (initial_state st P)))"
  by (rule written_as_cong) (simp_all add: recent_run_result pending_stores_def)

lemma classic_run_writes:
  assumes "distinct (map doc_id (collection st))"
    and "a \<in> set (new_classic_ids e P limit)"
    and "fetch_arxiv_metadata e a = Some m"
    and "encode e (text_to_embed (meta_title m) (clean_summary (meta_summary m))) = Some emb"
  shows "written_as ''classic'' (classic_clock e) (meta_id m)
           (fst (ingest_classic_papers e st P limit))"
  unfolding classic_run_pending
  by (rule classic_loop_writes[OF _ assms(2,3,4)]) (simp add: initial_state_simps assms(1))




lemma recent_run_written:
  assumes "distinct (map doc_id (collection st))"
    and "X \<in> snd (ingest_recent_papers e st P)" and "X \<notin> P"
  shows "written_as ''recent'' (recent_clock e) X (fst (ingest_recent_papers e st P))"
proof -
  have "\<forall>X \<in> processed_ids (recent_loop e 0 (initial_state st P)) - P.
      written_as ''recent'' (recent_clock e) X
        (pending_stores (recent_loop e 0 (initial_state st P)))"
    by (rule recent_loop_written) (simp_all add: initial_state_simps assms(1))
  then show ?thesis
    using assms(2,3) unfolding recent_run_pending by (simp add: recent_run_result)
qed

lemma recent_run_complete:
  assumes "\<forall>w \<le> 156. \<forall>p \<in> set (arxiv_search e w).
             encode e (text_to_embed (paper_title p) (clean_summary (paper_summary p))) \<noteq> None"
    and "(\<Sum>w < 157. length (arxiv_search e w)) < RECENT_ITEMS"
    and "w \<le> 156" and "p \<in> set (arxiv_search e w)"
  shows "last_segment (entry_id p) \<in> snd (ingest_recent_papers e st P)"
proof -
  have enc: "\<forall>v. 0 \<le> v \<and> v \<le> 156 \<longrightarrow>
      (\<forall>p \<in> set (arxiv_search e v). encode e (recent_text p) \<noteq> None)"
    using assms(1) by (simp add: recent_text_def)
  have sum: "ingested (initial_state st P) + (\<Sum>v = 0..<157. length (arxiv_search e v))
      < RECENT_ITEMS"
    using assms(2) by (simp add: initial_state_simps lessThan_atLeast0)
  from recent_loop_complete[OF enc sum] assms(3,4)
  have "recent_id p \<in> processed_ids (recent_loop e 0 (initial_state st P))" by blast
  then show ?thesis by (simp add: recent_run_result recent_id_def)
qed

lemma final_flush_of_run:
  "vectors_batch (foldl (ingest_classic_item e) (initial_state st P) (new_classic_ids e P limit)) \<noteq> []
   \<Longrightarrow> fst (ingest_classic_papers e st P limit)
     = bulk_write
         (index_upsert
            (stores (foldl (ingest_classic_item e) (initial_state st P) (new_classic_ids e P limit)))
            (vectors_batch (foldl (ingest_classic_item e) (initial_state st P)
                              (new_classic_ids e P limit))))
         (mongo_batch (foldl (ingest_classic_item e) (initial_state st P)
                         (new_classic_ids e P limit)))"
  by (cases "new_classic_ids e P limit = []")
     (simp_all add: ingest_classic_papers_unfold final_flush_def flush_batches_def
       initial_state_def)

lemma final_flush_of_recent_run:
  "vectors_batch (recent_loop e 0 (initial_state st P)) \<noteq> []
   \<Longrightarrow> fst (ingest_recent_papers e st P)
     = bulk_write
         (index_upsert (stores (recent_loop e 0 (initial_state st P)))
            (vectors_batch (recent_loop e 0 (initial_state st P))))
         (mongo_batch (recent_loop e 0 (initial_state st P)))"
  by (simp add: ingest_recent_papers_def Let_def final_flush_def flush_batches_def
      initial_state_def)

text \<open>
  Claim C5. In the classic loop and in the recent loop, an item whose staging brings
  the buffers to the batch size of 200 makes the loop upsert the whole vector batch
  into the index, then bulk-write the whole batch of operations into the collection,
  and empty both buffers; in the recent loop this holds also for the item with which
  the target count is reached. When the loop of a run ends with a non-empty remainder,
  the run writes it in the same way. In a collection with unique ids, every classic
  candidate that is fetched and encoded has, at the end of the classic run, exactly one
  document, of type classic and with a timestamp of the run, and a vector; every id
  that the recent run adds to the processed ids has exactly one document, of type
  recent, and a vector; and when no encoding fails and the weeks hold fewer papers than
  the target, every paper of every week is among the processed ids at the end.
\<close>

theorem staged_items_reach_stores:
  "(fetch_arxiv_metadata e a = Some m \<longrightarrow>
    encode e (text_to_embed (meta_title m) (clean_summary (meta_summary m))) = Some emb \<longrightarrow>
    BATCH_SIZE \<le> length (vectors_batch s) + 1 \<longrightarrow>
      ingest_classic_item e s a
        = \<lparr>stores = bulk_write
                      (index_upsert (stores s) (vectors_batch s @ [(meta_id m, emb)]))
                      (mongo_batch s @ [classic_mongo_op m (clean_summary (meta_summary m))
                                          (classic_clock e (ingested s))]),
           processed_ids = insert (meta_id m) (processed_ids s),
           vectors_batch = [], mongo_batch = [], ingested = ingested s + 1\<rparr>
      \<and> calls (stores (ingest_classic_item e s a))
        = calls (stores s) @ [Index_upsert (map fst (vectors_batch s) @ [meta_id m]),
                              Bulk_write (map filter_id (mongo_batch s) @ [meta_id m])])
   \<and> (last_segment (entry_id p) \<notin> processed_ids s \<longrightarrow>
      encode e (text_to_embed (paper_title p) (clean_summary (paper_summary p))) = Some emb \<longrightarrow>
      BATCH_SIZE \<le> length (vectors_batch s) + 1 \<longrightarrow>
        ingest_recent_week e s (p # ps)
          = (let s1 = \<lparr>stores = bulk_write
                                   (index_upsert (stores s)
                                      (vectors_batch s @ [(last_segment (entry_id p), emb)]))
                                   (mongo_batch s
                                      @ [recent_mongo_op p (last_segment (entry_id p))
                                           (clean_summary (paper_summary p))
                                           (recent_clock e (ingested s))]),
                        processed_ids = insert (last_segment (entry_id p)) (processed_ids s),
                        vectors_batch = [], mongo_batch = [], ingested = ingested s + 1\<rparr>
             in if RECENT_ITEMS \<le> ingested s + 1 then s1 else ingest_recent_week e s1 ps))
   \<and> (vectors_batch (foldl (ingest_classic_item e) (initial_state st P) (new_classic_ids e P limit))
         \<noteq> [] \<longrightarrow>
       fst (ingest_classic_papers e st P limit)
         = bulk_write
             (index_upsert
                (stores (foldl (ingest_classic_item e) (initial_state st P)
                          (new_classic_ids e P limit)))
                (vectors_batch (foldl (ingest_classic_item e) (initial_state st P)
                                  (new_classic_ids e P limit))))
             (mongo_batch (foldl (ingest_classic_item e) (initial_state st P)
                             (new_classic_ids e P limit))))
   \<and> (vectors_batch (recent_loop e 0 (initial_state st P)) \<noteq> [] \<longrightarrow>
       fst (ingest_recent_papers e st P)
         = bulk_write
             (index_upsert (stores (recent_loop e 0 (initial_state st P)))
                (vectors_batch (recent_loop e 0 (initial_state st P))))
             (mongo_batch (recent_loop e 0 (initial_state st P))))
   \<and> (distinct (map doc_id (collection st)) \<longrightarrow>
       (b \<in> set (new_classic_ids e P limit) \<longrightarrow>
        fetch_arxiv_metadata e b = Some m' \<longrightarrow>
        encode e (text_to_embed (meta_title m') (clean_summary (meta_summary m'))) = Some emb' \<longrightarrow>
          written_as ''classic'' (classic_clock e) (meta_id m')
            (fst (ingest_classic_papers e st P limit)))
       \<and> (X \<in> snd (ingest_recent_papers e st P) \<longrightarrow> X \<notin> P \<longrightarrow>
            written_as ''recent'' (recent_clock e) X (fst (ingest_recent_papers e st P))))
   \<and> ((\<forall>w \<le> 156. \<forall>q \<in> set (arxiv_search e w).
          encode e (text_to_embed (paper_title q) (clean_summary (paper_summary q))) \<noteq> None) \<longrightarrow>
       (\<Sum>w < 157. length (arxiv_search e w)) < RECENT_ITEMS \<longrightarrow>
       (\<forall>w \<le> 156. \<forall>q \<in> set (arxiv_search e w).
          last_segment (entry_id q) \<in> snd (ingest_recent_papers e st P)))"
proof (intro conjI impI)
  assume m: "fetch_arxiv_metadata e a = Some m"
    and emb: "encode e (text_to_embed (meta_title m) (clean_summary (meta_summary m))) = Some emb"
    and full: "BATCH_SIZE \<le> length (vectors_batch s) + 1"
  show eq: "ingest_classic_item e s a
        = \<lparr>stores = bulk_write
                      (index_upsert (stores s) (vectors_batch s @ [(meta_id m, emb)]))
                      (mongo_batch s @ [classic_mongo_op m (clean_summary (meta_summary m))
                                          (classic_clock e (ingested s))]),
           processed_ids = insert (meta_id m) (processed_ids s),
           vectors_batch = [], mongo_batch = [], ingested = ingested s + 1\<rparr>"
    unfolding classic_item_staged[OF m emb] threshold_flush_full[OF full] by simp
  show "calls (stores (ingest_classic_item e s a))
        = calls (stores s) @ [Index_upsert (map fst (vectors_batch s) @ [meta_id m]),
                              Bulk_write (map filter_id (mongo_batch s) @ [meta_id m])]"
    unfolding eq by (simp add: bulk_write_def index_upsert_def classic_mongo_op_def)
next
  assume new: "last_segment (entry_id p) \<notin> processed_ids s"
    and emb: "encode e (text_to_embed (paper_title p) (clean_summary (paper_summary p))) = Some emb"
    and full: "BATCH_SIZE \<le> length (vectors_batch s) + 1"
  show "ingest_recent_week e s (p # ps)
          = (let s1 = \<lparr>stores = bulk_write
                                   (index_upsert (stores s)
                                      (vectors_batch s @ [(last_segment (entry_id p), emb)]))
                                   (mongo_batch s
                                      @ [recent_mongo_op p (last_segment (entry_id p))
                                           (clean_summary (paper_summary p))
                                           (recent_clock e (ingested s))]),
                        processed_ids = insert (last_segment (entry_id p)) (processed_ids s),
                        vectors_batch = [], mongo_batch = [], ingested = ingested s + 1\<rparr>
             in if RECENT_ITEMS \<le> ingested s + 1 then s1 else ingest_recent_week e s1 ps)"
    using new emb by (simp add: threshold_flush_full[OF full] Let_def)
next
  assume "vectors_batch (foldl (ingest_classic_item e) (initial_state st P)
      (new_classic_ids e P limit)) \<noteq> []"
  then show "fst (ingest_classic_papers e st P limit)
         = bulk_write
             (index_upsert
                (stores (foldl (ingest_classic_item e) (initial_state st P)
                          (new_classic_ids e P limit)))
                (vectors_batch (foldl (ingest_classic_item e) (initial_state st P)
                                  (new_classic_ids e P limit))))
             (mongo_batch (foldl (ingest_classic_item e) (initial_state st P)
                             (new_classic_ids e P limit)))"
    by (rule final_flush_of_run)
next
  assume "vectors_batch (recent_loop e 0 (initial_state st P)) \<noteq> []"
  then show "fst (ingest_recent_papers e st P)
         = bulk_write
             (index_upsert (stores (recent_loop e 0 (initial_state st P)))
                (vectors_batch (recent_loop e 0 (initial_state st P))))
             (mongo_batch (recent_loop e 0 (initial_state st P)))"
    by (rule final_flush_of_recent_run)
next
  assume "distinct (map doc_id (collection st))" "b \<in> set (new_classic_ids e P limit)"
    "fetch_arxiv_metadata e b = Some m'"
    "encode e (text_to_embed (meta_title m') (clean_summary (meta_summary m'))) = Some emb'"
  then show "written_as ''classic'' (classic_clock e) (meta_id m')
      (fst (ingest_classic_papers e st P limit))"
    by (rule classic_run_writes)
next
  assume "distinct (map doc_id (collection st))" "X \<in> snd (ingest_recent_papers e st P)" "X \<notin> P"
  then show "written_as ''recent'' (recent_clock e) X (fst (ingest_recent_papers e st P))"
    by (rule recent_run_written)
next
  assume enc: "\<forall>w \<le> 156. \<forall>q \<in> set (arxiv_search e w).
      encode e (text_to_embed (paper_title q) (clean_summary (paper_summary q))) \<noteq> None"
    and sum: "(\<Sum>w < 157. length (arxiv_search e w)) < RECENT_ITEMS"
  show "\<forall>w \<le> 156. \<forall>q \<in> set (arxiv_search e w).
      last_segment (entry_id q) \<in> snd (ingest_recent_papers e st P)"
    using recent_run_complete[OF enc sum] by blast
qed


lemma first_night_distinct: "distinct (map doc_id (collection first_night))"
  by (simp add: first_night_eval)

lemma sample_new_ids:
  "new_classic_ids sample_env {''2401.00001v1''} CLASSIC_ITEMS = [''2401.00001'']"
  unfolding new_classic_ids_def sample_candidates by (simp add: sample_env_def)

lemma second_night_classic_item:
  "ingest_classic_item sample_env (initial_state first_night {''2401.00001v1''}) ''2401.00001''
     = \<lparr>stores = first_night, processed_ids = {''2401.00001v1''},
        vectors_batch = [(''2401.00001v1'', [1])],
        mongo_batch = [classic_mongo_op sample_meta (clean_summary (meta_summary sample_meta)) 1000],
        ingested = 1\<rparr>"
  by (simp add: ingest_classic_item_def sample_fetch sample_encode stage_def
      threshold_flush_def BATCH_SIZE_def initial_state_def)
     (simp add: sample_env_def sample_meta_def)

lemma second_night_classic_run:
  "ingest_classic_papers sample_env first_night {''2401.00001v1''} CLASSIC_ITEMS
     = (\<lparr>collection = [classic_doc], index = [(''2401.00001v1'', [1])],
         calls = [Index_upsert [''2401.00001v1''], Bulk_write [''2401.00001v1''],
                  Index_upsert [''2401.00001v1''], Bulk_write [''2401.00001v1'']]\<rparr>,
        {''2401.00001v1''})"
proof -
  have fold: "foldl (ingest_classic_item sample_env) (initial_state first_night {''2401.00001v1''})
      [''2401.00001'']
    = ingest_classic_item sample_env (initial_state first_night {''2401.00001v1''}) ''2401.00001''"
    by simp
  show ?thesis
    by (simp only: ingest_classic_papers_unfold sample_new_ids fold second_night_classic_item)
       (simp add: final_flush_def flush_batches_def bulk_write_def index_upsert_def
        first_night_eval classic_mongo_op_def sample_meta_def set_fields_def recent_doc_def
        classic_doc_def clean_summary_def)
qed

lemma first_night_recent_week:
  "ingest_recent_week quiet_env (initial_state empty_store {}) [sample_paper]
     = \<lparr>stores = empty_store, processed_ids = {''2401.00001v1''},
        vectors_batch = [(''2401.00001v1'', [1])],
        mongo_batch = [recent_mongo_op sample_paper ''2401.00001v1''
           (clean_summary (paper_summary sample_paper)) 200],
        ingested = 1\<rparr>"
  by (simp add: sample_last_segment quiet_encode stage_def threshold_flush_def BATCH_SIZE_def
      RECENT_ITEMS_def initial_state_def)

lemma first_night_recent_loop:
  "recent_loop quiet_env 0 (initial_state empty_store {})
     = ingest_recent_week quiet_env (initial_state empty_store {}) [sample_paper]"
  using recent_loop_first_week[of "initial_state empty_store {}" quiet_env] sample_search(3,4)
  by (simp add: RECENT_ITEMS_def initial_state_simps)

lemma first_night_recent_run:
  "ingest_recent_papers quiet_env empty_store {}
     = (\<lparr>collection = [recent_doc], index = [(''2401.00001v1'', [1])],
         calls = [Index_upsert [''2401.00001v1''], Bulk_write [''2401.00001v1'']]\<rparr>,
        {''2401.00001v1''})"
proof -
  have "ingest_recent_papers quiet_env empty_store {}
      = (stores (final_flush (recent_loop quiet_env 0 (initial_state empty_store {}))),
         processed_ids (final_flush (recent_loop quiet_env 0 (initial_state empty_store {}))))"
    by (simp add: ingest_recent_papers_def Let_def initial_state_def)
  then show ?thesis
    by (simp only: first_night_recent_loop first_night_recent_week)
       (simp add: final_flush_def flush_batches_def bulk_write_def index_upsert_def
        empty_store_def recent_mongo_op_def inserted_document_def set_fields_def recent_doc_def
        sample_paper_def clean_summary_def)
qed

lemma quiet_search_total: "(\<Sum>w < 157. length (arxiv_search quiet_env w)) = 1"
proof -
  have "length (arxiv_search quiet_env w) = (if w = 0 then 1 else 0)" for w
    by (simp add: quiet_env_def sample_env_def)
  then show ?thesis by (simp add: sum.delta)
qed

lemma nearly_done_simps:
  "length (vectors_batch nearly_done) = 199" "processed_ids nearly_done = {}"
  "ingested nearly_done = 26999"
  by (simp_all add: nearly_done_def nearly_full_def)

theorem staged_items_reach_stores_witness:
  "fetch_arxiv_metadata sample_env ''2401.00001'' = Some sample_meta
   \<and> encode sample_env (text_to_embed (meta_title sample_meta)
        (clean_summary (meta_summary sample_meta))) = Some [1]
   \<and> BATCH_SIZE \<le> length (vectors_batch nearly_full) + 1
   \<and> vectors_batch (ingest_classic_item sample_env nearly_full ''2401.00001'') = []
   \<and> mongo_batch (ingest_classic_item sample_env nearly_full ''2401.00001'') = []
   \<and> calls (stores (ingest_classic_item sample_env nearly_full ''2401.00001''))
       = calls (stores nearly_full)
         @ [Index_upsert (map fst (vectors_batch nearly_full) @ [''2401.00001v1'']),
            Bulk_write (map filter_id (mongo_batch nearly_full) @ [''2401.00001v1''])]
   \<and> last_segment (entry_id sample_paper) \<notin> processed_ids nearly_full
   \<and> vectors_batch (ingest_recent_week sample_env nearly_full [sample_paper]) = []
   \<and> ingested (ingest_recent_week sample_env nearly_full [sample_paper]) = 200
   \<and> BATCH_SIZE \<le> length (vectors_batch nearly_done) + 1
   \<and> vectors_batch (ingest_recent_week sample_env nearly_done [sample_paper, sample_paper]) = []
   \<and> ingested (ingest_recent_week sample_env nearly_done [sample_paper, sample_paper]) = RECENT_ITEMS
   \<and> distinct (map doc_id (collection first_night))
   \<and> ''2401.00001'' \<in> set (new_classic_ids sample_env {''2401.00001v1''} CLASSIC_ITEMS)
   \<and> vectors_batch (foldl (ingest_classic_item sample_env)
        (initial_state first_night {''2401.00001v1''})
        (new_classic_ids sample_env {''2401.00001v1''} CLASSIC_ITEMS)) \<noteq> []
   \<and> written_as ''classic'' (classic_clock sample_env) ''2401.00001v1''
        (fst (ingest_classic_papers sample_env first_night {''2401.00001v1''} CLASSIC_ITEMS))
   \<and> collection (fst (ingest_classic_papers sample_env first_night {''2401.00001v1''}
        CLASSIC_ITEMS)) = [classic_doc]
   \<and> distinct (map doc_id (collection empty_store))
   \<and> (\<Sum>w < 157. length (arxiv_search quiet_env w)) < RECENT_ITEMS
   \<and> sample_paper \<in> set (arxiv_search quiet_env 0)
   \<and> last_segment (entry_id sample_paper) \<in> snd (ingest_recent_papers quiet_env empty_store {})
   \<and> vectors_batch (recent_loop quiet_env 0 (initial_state empty_store {})) \<noteq> []
   \<and> written_as ''recent'' (recent_clock quiet_env) ''2401.00001v1''
        (fst (ingest_recent_papers quiet_env empty_store {}))
   \<and> collection (fst (ingest_recent_papers quiet_env empty_store {})) = [recent_doc]"
proof -
  let ?P = "{''2401.00001v1''}"
  have h1: "fetch_arxiv_metadata sample_env ''2401.00001'' = Some sample_meta"
    by (rule sample_fetch)
  have h2: "encode sample_env (text_to_embed (meta_title sample_meta)
        (clean_summary (meta_summary sample_meta))) = Some [1]"
    by (rule sample_encode)
  have h3: "BATCH_SIZE \<le> length (vectors_batch nearly_full) + 1"
    by (simp add: nearly_full_length BATCH_SIZE_def)
  have h4: "last_segment (entry_id sample_paper) \<notin> processed_ids nearly_full"
    by (simp add: nearly_full_def)
  have h5: "encode sample_env (text_to_embed (paper_title sample_paper)
        (clean_summary (paper_summary sample_paper))) = Some [1]"
    by (rule sample_encode)
  have h6: "\<not> RECENT_ITEMS \<le> ingested nearly_full + 1"
    by (simp add: nearly_full_def RECENT_ITEMS_def)
  have g3: "BATCH_SIZE \<le> length (vectors_batch nearly_done) + 1"
    by (simp add: nearly_done_simps BATCH_SIZE_def)
  have g4: "last_segment (entry_id sample_paper) \<notin> processed_ids nearly_done"
    by (simp add: nearly_done_simps)
  have g6: "RECENT_ITEMS \<le> ingested nearly_done + 1" "ingested nearly_done + 1 = RECENT_ITEMS"
    by (simp_all add: nearly_done_simps RECENT_ITEMS_def)
  have m: "meta_id sample_meta = ''2401.00001v1''" by (simp add: sample_meta_def)
  note t = staged_items_reach_stores[where e = sample_env and a = "''2401.00001''"
      and m = sample_meta and emb = "[1]" and s = nearly_full and p = sample_paper and ps = "[]"
      and st = first_night and P = ?P and limit = CLASSIC_ITEMS and b = "''2401.00001''"
      and m' = sample_meta and emb' = "[1]"]
  note t2 = staged_items_reach_stores[where e = sample_env and emb = "[1]" and s = nearly_done
      and p = sample_paper and ps = "[sample_paper]"]
  note t3 = staged_items_reach_stores[where e = quiet_env and st = empty_store and P = "{}"
      and X = "''2401.00001v1''"]
  have c1: "ingest_classic_item sample_env nearly_full ''2401.00001''
        = \<lparr>stores = bulk_write
                      (index_upsert (stores nearly_full)
                         (vectors_batch nearly_full @ [(meta_id sample_meta, [1])]))
                      (mongo_batch nearly_full
                         @ [classic_mongo_op sample_meta (clean_summary (meta_summary sample_meta))
                              (classic_clock sample_env (ingested nearly_full))]),
           processed_ids = insert (meta_id sample_meta) (processed_ids nearly_full),
           vectors_batch = [], mongo_batch = [], ingested = ingested nearly_full + 1\<rparr>"
    and c2: "calls (stores (ingest_classic_item sample_env nearly_full ''2401.00001''))
        = calls (stores nearly_full)
          @ [Index_upsert (map fst (vectors_batch nearly_full) @ [meta_id sample_meta]),
             Bulk_write (map filter_id (mongo_batch nearly_full) @ [meta_id sample_meta])]"
    using t h1 h2 h3 by blast+
  have c3: "ingest_recent_week sample_env nearly_full [sample_paper]
      = (let s1 = \<lparr>stores = bulk_write
                               (index_upsert (stores nearly_full)
                                  (vectors_batch nearly_full
                                     @ [(last_segment (entry_id sample_paper), [1])]))
                               (mongo_batch nearly_full
                                  @ [recent_mongo_op sample_paper
                                       (last_segment (entry_id sample_paper))
                                       (clean_summary (paper_summary sample_paper))
                                       (recent_clock sample_env (ingested nearly_full))]),
                    processed_ids = insert (last_segment (entry_id sample_paper))
                                      (processed_ids nearly_full),
                    vectors_batch = [], mongo_batch = [], ingested = ingested nearly_full + 1\<rparr>
         in if RECENT_ITEMS \<le> ingested nearly_full + 1 then s1
            else ingest_recent_week sample_env s1 [])"
    using t h4 h5 h3 by blast
  have c4: "ingest_recent_week sample_env nearly_done [sample_paper, sample_paper]
      = (let s1 = \<lparr>stores = bulk_write
                               (index_upsert (stores nearly_done)
                                  (vectors_batch nearly_done
                                     @ [(last_segment (entry_id sample_paper), [1])]))
                               (mongo_batch nearly_done
                                  @ [recent_mongo_op sample_paper
                                       (last_segment (entry_id sample_paper))
                                       (clean_summary (paper_summary sample_paper))
                                       (recent_clock sample_env (ingested nearly_done))]),
                    processed_ids = insert (last_segment (entry_id sample_paper))
                                      (processed_ids nearly_done),
                    vectors_batch = [], mongo_batch = [], ingested = ingested nearly_done + 1\<rparr>
         in if RECENT_ITEMS \<le> ingested nearly_done + 1 then s1
            else ingest_recent_week sample_env s1 [sample_paper])"
    using t2 g4 h5 g3 by blast
  have r1: "vectors_batch (ingest_classic_item sample_env nearly_full ''2401.00001'') = []"
    "mongo_batch (ingest_classic_item sample_env nearly_full ''2401.00001'') = []"
    unfolding c1 by simp_all
  have r2: "vectors_batch (ingest_recent_week sample_env nearly_full [sample_paper]) = []"
    "ingested (ingest_recent_week sample_env nearly_full [sample_paper]) = 200"
    unfolding c3 Let_def using h6 by (simp_all add: nearly_full_def)
  have r3: "vectors_batch (ingest_recent_week sample_env nearly_done [sample_paper, sample_paper]) = []"
    "ingested (ingest_recent_week sample_env nearly_done [sample_paper, sample_paper]) = RECENT_ITEMS"
    unfolding c4 Let_def using g6 by simp_all
  have k1: "distinct (map doc_id (collection first_night))" by (rule first_night_distinct)
  have k2: "''2401.00001'' \<in> set (new_classic_ids sample_env ?P CLASSIC_ITEMS)"
    by (simp add: sample_new_ids)
  have k3: "vectors_batch (foldl (ingest_classic_item sample_env) (initial_state first_night ?P)
        (new_classic_ids sample_env ?P CLASSIC_ITEMS)) \<noteq> []"
    by (simp only: sample_new_ids foldl.simps second_night_classic_item) simp
  have w1: "written_as ''classic'' (classic_clock sample_env) (meta_id sample_meta)
        (fst (ingest_classic_papers sample_env first_night ?P CLASSIC_ITEMS))"
    using t k1 k2 h1 h2 by blast
  have w2: "collection (fst (ingest_classic_papers sample_env first_night ?P CLASSIC_ITEMS))
      = [classic_doc]"
    by (simp add: second_night_classic_run)
  have q1: "distinct (map doc_id (collection empty_store))" by (simp add: empty_store_def)
  have q2: "(\<Sum>w < 157. length (arxiv_search quiet_env w)) < RECENT_ITEMS"
    by (simp add: quiet_search_total RECENT_ITEMS_def)
  have q3: "\<forall>w \<le> 156. \<forall>q \<in> set (arxiv_search quiet_env w).
      encode quiet_env (text_to_embed (paper_title q) (clean_summary (paper_summary q))) \<noteq> None"
    by (simp add: quiet_encode)
  have q4: "sample_paper \<in> set (arxiv_search quiet_env 0)" by (simp add: sample_search)
  have q5: "last_segment (entry_id sample_paper) \<in> snd (ingest_recent_papers quiet_env empty_store {})"
    using t3 q2 q3 q4 by blast
  have q6: "vectors_batch (recent_loop quiet_env 0 (initial_state empty_store {})) \<noteq> []"
    by (simp only: first_night_recent_loop first_night_recent_week) simp
  have q7: "''2401.00001v1'' \<in> snd (ingest_recent_papers quiet_env empty_store {})"
    using q5 by (simp add: sample_last_segment)
  have w3: "written_as ''recent'' (recent_clock quiet_env) ''2401.00001v1''
        (fst (ingest_recent_papers quiet_env empty_store {}))"
    using t3 q1 q7 by blast
  have w4: "collection (fst (ingest_recent_papers quiet_env empty_store {})) = [recent_doc]"
    by (simp add: first_night_recent_run)
  show ?thesis
    using h1 h2 h3 h4 g3 r1 r2 r3 c2 k1 k2 k3 w1 w2 q1 q2 q4 q5 q6 w3 w4 unfolding m by blast
qed


end
